theory Spec2Isabelle
  imports Main "HOL-Library.Word"
begin

unbundle bit_operations_syntax

section \<open>Shallow embedding of \<^verbatim>\<open>src/dsc.h\<close>\<close>

text \<open>
  The header declares the value types and the two growable containers of the solver.
  The parts embedded here are the packed colour (\<^verbatim>\<open>RgbaColor\<close>), the unordered
  \<^verbatim>\<open>List<T>\<close> and the handle-sorted \<^verbatim>\<open>IdList<T,H>\<close>.

  Conventions of the embedding:
  \<^item> \<^verbatim>\<open>uint8_t\<close> and \<^verbatim>\<open>uint32_t\<close> are words of that width, so arithmetic on handles
    wraps around as in C;
  \<^item> a C \<^verbatim>\<open>int\<close> that counts or indexes elements (\<^verbatim>\<open>n\<close>, \<^verbatim>\<open>elemsAllocated\<close>, loop
    indices, \<^verbatim>\<open>cnt\<close>, \<^verbatim>\<open>tag\<close>) is a mathematical integer in the range of a 32-bit
    \<^verbatim>\<open>int\<close>. The index arithmetic of the loops stays in that range for containers
    with fewer than \<open>2^30\<close> elements. The one computation on a caller-supplied
    \<^verbatim>\<open>int\<close>, \<^verbatim>\<open>n -= cnt\<close> in \<^verbatim>\<open>RemoveLast\<close>, can leave the range for a three-element list
    already; there the wrap-around of the 32-bit result is written out (\<open>c_int\<close>);
  \<^item> the buffer behind the pointer \<^verbatim>\<open>elem\<close> is a store from offsets to cells, so
    \<^verbatim>\<open>elem[i]\<close> is \<open>elem l i\<close>; the cells at offsets \<open>0 .. n - 1\<close> are the live ones,
    and a pointer to an element is the offset of its cell;
  \<^item> \<^verbatim>\<open>oops()\<close> terminates the process; an operation that can reach it returns
    \<open>Inl Oops\<close> instead of a new state;
  \<^item> \<^verbatim>\<open>dbp\<close> only prints a diagnostic and is left out; \<^verbatim>\<open>max\<close> on two
    \<^verbatim>\<open>uint32_t\<close> values is the maximum in the unsigned order;
  \<^item> a \<^verbatim>\<open>while\<close> loop whose exit is not guaranteed for every input is a partial
    function into \<open>option\<close>, with \<open>None\<close> for a loop that never exits.
\<close>

type_synonym uint8_t = "8 word"
type_synonym uint32_t = "32 word"

subsection \<open>RgbaColor\<close>

record RgbaColor =
  red :: uint8_t
  green :: uint8_t
  blue :: uint8_t
  alpha :: uint8_t

text \<open>
  In \<^verbatim>\<open>ToPackedInt\<close> the byte fields are promoted to \<^verbatim>\<open>int\<close>, shifted and subtracted
  as integers, and each term is then converted to \<^verbatim>\<open>uint32_t\<close>, which reduces it
  modulo \<open>2^32\<close> (\<open>word_of_int\<close>). The shift by 24 can reach the sign bit of a 32-bit
  \<^verbatim>\<open>int\<close>; taking the integer result modulo \<open>2^32\<close> is the two's complement bit
  pattern that the conversion keeps.
\<close>

definition ToPackedInt :: "RgbaColor \<Rightarrow> uint32_t" where
  "ToPackedInt c =
     word_of_int (uint (red c)) OR
     word_of_int (push_bit 8 (uint (green c))) OR
     word_of_int (push_bit 16 (uint (blue c))) OR
     word_of_int (push_bit 24 (255 - uint (alpha c)))"

text \<open>\<^verbatim>\<open>From\<close> narrows each \<^verbatim>\<open>int\<close> argument to a byte.\<close>

definition From :: "int \<Rightarrow> int \<Rightarrow> int \<Rightarrow> int \<Rightarrow> RgbaColor" where
  "From r g b a =
     \<lparr>red = word_of_int r, green = word_of_int g, blue = word_of_int b, alpha = word_of_int a\<rparr>"

text \<open>
  In \<^verbatim>\<open>FromPackedInt\<close> the masks, shifts and the subtraction from 255 are unsigned
  32-bit operations; the cast to \<^verbatim>\<open>int\<close> reads the result in two's complement
  (\<open>sint\<close>).
\<close>

definition FromPackedInt :: "uint32_t \<Rightarrow> RgbaColor" where
  "FromPackedInt bgra =
     From (sint (bgra AND 0xff))
          (sint (drop_bit 8 bgra AND 0xff))
          (sint (drop_bit 16 bgra AND 0xff))
          (sint (255 - (drop_bit 24 bgra AND 0xff)))"

subsection \<open>Helpers declared outside this header\<close>

text \<open>
  Modelled from the spec: the macro \<^verbatim>\<open>oops()\<close> is defined in another file. Reaching
  it is fatal and ends the process; nothing is handed back to the caller.
\<close>

datatype error = Oops

text \<open>
  The value that a 32-bit two's complement \<^verbatim>\<open>int\<close> holds when the mathematical
  result of an operation is \<open>x\<close>: \<open>x\<close> itself inside \<open>-2^31 .. 2^31 - 1\<close>, and \<open>x\<close>
  reduced modulo \<open>2^32\<close> into that range otherwise.
\<close>

definition c_int :: "int \<Rightarrow> int" where
  "c_int x = (x + 2147483648) mod 4294967296 - 2147483648"

text \<open>Integer division of C truncates towards zero.\<close>

definition c_div :: "int \<Rightarrow> int \<Rightarrow> int" where
  "c_div a b = sgn a * sgn b * (\<bar>a\<bar> div \<bar>b\<bar>)"

text \<open>
  Modelled from the spec: \<^verbatim>\<open>MemRealloc\<close> is declared in another file. Growing the
  buffer keeps every cell that was there; the cells gained hold whatever the store has
  at their offsets. The second argument is the new number of cells.
\<close>

definition MemRealloc :: "(int \<Rightarrow> 'e) \<Rightarrow> int \<Rightarrow> (int \<Rightarrow> 'e)" where
  "MemRealloc p cnt = p"

text \<open>
  \<^verbatim>\<open>memmove(p + dst, p + src, cnt)\<close>, counted in cells: the \<open>cnt\<close> cells from offset
  \<open>src\<close> are copied to offset \<open>dst\<close> as if through a temporary, so the regions may
  overlap.
\<close>

definition memmove :: "(int \<Rightarrow> 'e) \<Rightarrow> int \<Rightarrow> int \<Rightarrow> int \<Rightarrow> (int \<Rightarrow> 'e)" where
  "memmove p dst src cnt =
     (\<lambda>j. if dst \<le> j \<and> j < dst + cnt then p (src + (j - dst)) else p j)"

subsection \<open>Elements\<close>

text \<open>
  The containers are templates. \<^verbatim>\<open>List<T>\<close> needs an element with a \<^verbatim>\<open>tag\<close> field,
  \<^verbatim>\<open>IdList<T,H>\<close> one with a \<^verbatim>\<open>tag\<close> and a handle \<^verbatim>\<open>h\<close> whose value is \<^verbatim>\<open>h.v\<close>.
  Extensible records say the same: any record with these fields is an element, and
  whatever else it carries is its \<open>more\<close> part.
\<close>

record H =
  v :: uint32_t

record Tagged =
  tag :: int

record T = Tagged +
  h :: H

subsection \<open>List\<close>

record 'e List =
  elem :: "int \<Rightarrow> 'e"
  n :: int
  elemsAllocated :: int

text \<open>The loop of \<^verbatim>\<open>List::RemoveTagged\<close>; it returns the buffer and \<^verbatim>\<open>dest\<close>.\<close>

function List_RemoveTagged_loop ::
  "'a Tagged_scheme List \<Rightarrow> int \<Rightarrow> int \<Rightarrow> 'a Tagged_scheme List \<times> int" where
  "List_RemoveTagged_loop l src dest =
     (if src < n l then
        (if tag (elem l src) \<noteq> 0 then List_RemoveTagged_loop l (src + 1) dest
         else List_RemoveTagged_loop
                (if src \<noteq> dest then l\<lparr>elem := (elem l)(dest := elem l src)\<rparr> else l)
                (src + 1) (dest + 1))
      else (l, dest))"
  by pat_completeness auto
termination
  by (relation "measure (\<lambda>(l, src, dest). nat (n l - src))") auto

declare List_RemoveTagged_loop.simps [simp del]

definition List_RemoveTagged :: "'a Tagged_scheme List \<Rightarrow> 'a Tagged_scheme List" where
  "List_RemoveTagged l =
     (case List_RemoveTagged_loop l 0 0 of (l', dest) \<Rightarrow> l'\<lparr>n := dest\<rparr>)"

definition List_RemoveLast :: "'e List \<Rightarrow> int \<Rightarrow> error + 'e List" where
  "List_RemoveLast l cnt =
     (if n l < cnt then Inl Oops else Inr (l\<lparr>n := c_int (n l - cnt)\<rparr>))"

text \<open>The live elements of a list, in order: the cells at offsets \<open>0 .. n - 1\<close>.\<close>

definition List_contents :: "'e List \<Rightarrow> 'e list" where
  "List_contents l = map (elem l) [0..n l - 1]"

subsection \<open>IdList\<close>

record 'e IdList =
  elem :: "int \<Rightarrow> 'e"
  n :: int
  elemsAllocated :: int

function MaximumId_loop :: "'a T_scheme IdList \<Rightarrow> int \<Rightarrow> uint32_t \<Rightarrow> uint32_t" where
  "MaximumId_loop l i id' =
     (if i < n l then MaximumId_loop l (i + 1) (max id' (v (h (elem l i)))) else id')"
  by pat_completeness auto
termination
  by (relation "measure (\<lambda>(l, i, id'). nat (n l - i))") auto

declare MaximumId_loop.simps [simp del]

definition MaximumId :: "'a T_scheme IdList \<Rightarrow> uint32_t" where
  "MaximumId l = MaximumId_loop l 0 0"

text \<open>
  The binary search of \<^verbatim>\<open>Add\<close> runs while \<^verbatim>\<open>first != last\<close>, which does not bound
  the loop for every pair of indices, so it is a partial function. It yields the
  insertion index, or \<open>Oops\<close> when it meets the handle of \<open>t\<close>.
\<close>

partial_function (option) Add_loop ::
  "'a T_scheme IdList \<Rightarrow> 'a T_scheme \<Rightarrow> int \<Rightarrow> int \<Rightarrow> (error + int) option" where
  "Add_loop l t first last' =
     (if first \<noteq> last' then
        (let mid = c_div (first + last') 2; hm = h (elem l mid) in
           if v hm > v (h t) then Add_loop l t first mid
           else if v hm < v (h t) then Add_loop l t (mid + 1) last'
           else Some (Inl Oops))
      else Some (Inr first))"

declare Add_loop.simps [code]

definition Add ::
  "'a T_scheme IdList \<Rightarrow> 'a T_scheme \<Rightarrow> (error + 'a T_scheme IdList) option" where
  "Add l t =
     (let l1 = (if n l \<ge> elemsAllocated l
                then l\<lparr>elemsAllocated := (elemsAllocated l + 32) * 2,
                       elem := MemRealloc (elem l) ((elemsAllocated l + 32) * 2)\<rparr>
                else l)
      in case Add_loop l1 t 0 (n l1) of
           None \<Rightarrow> None
         | Some (Inl e) \<Rightarrow> Some (Inl e)
         | Some (Inr i) \<Rightarrow>
             Some (Inr (l1\<lparr>elem := (memmove (elem l1) (i + 1) i (n l1 - i))(i := t),
                           n := n l1 + 1\<rparr>)))"

text \<open>
  \<^verbatim>\<open>AddAndAssignId\<close> writes the new handle into \<^verbatim>\<open>*t\<close> and returns it: the result is
  the new container, the element as updated, and its handle.
\<close>

definition AddAndAssignId ::
  "'a T_scheme IdList \<Rightarrow> 'a T_scheme \<Rightarrow>
     (error + 'a T_scheme IdList \<times> 'a T_scheme \<times> H) option" where
  "AddAndAssignId l t =
     (let t' = t\<lparr>h := (h t)\<lparr>v := MaximumId l + 1\<rparr>\<rparr>
      in case Add l t' of
           None \<Rightarrow> None
         | Some (Inl e) \<Rightarrow> Some (Inl e)
         | Some (Inr l') \<Rightarrow> Some (Inr (l', t', h t')))"

text \<open>
  The lookups return a pointer into the buffer: here the offset of the cell, with
  \<open>None\<close> for the null pointer.
\<close>

function FindByIdNoOops_loop :: "'a T_scheme IdList \<Rightarrow> H \<Rightarrow> int \<Rightarrow> int \<Rightarrow> int option" where
  "FindByIdNoOops_loop l hh first last' =
     (if first \<le> last' then
        (let mid = c_div (first + last') 2; hm = h (elem l mid) in
           if v hm > v hh then FindByIdNoOops_loop l hh first (mid - 1)
           else if v hm < v hh then FindByIdNoOops_loop l hh (mid + 1) last'
           else Some mid)
      else None)"
  by pat_completeness auto
termination
  by (relation "measure (\<lambda>(l, hh, first, last'). nat (last' - first + 1))")
    (auto simp: c_div_def sgn_if)

declare FindByIdNoOops_loop.simps [simp del]

definition FindByIdNoOops :: "'a T_scheme IdList \<Rightarrow> H \<Rightarrow> int option" where
  "FindByIdNoOops l hh = FindByIdNoOops_loop l hh 0 (n l - 1)"

definition FindById :: "'a T_scheme IdList \<Rightarrow> H \<Rightarrow> error + int" where
  "FindById l hh = (case FindByIdNoOops l hh of None \<Rightarrow> Inl Oops | Some i \<Rightarrow> Inr i)"

function ClearTags_loop :: "'a T_scheme IdList \<Rightarrow> int \<Rightarrow> 'a T_scheme IdList" where
  "ClearTags_loop l i =
     (if i < n l
      then ClearTags_loop (l\<lparr>elem := (elem l)(i := (elem l i)\<lparr>tag := 0\<rparr>)\<rparr>) (i + 1)
      else l)"
  by pat_completeness auto
termination
  by (relation "measure (\<lambda>(l, i). nat (n l - i))") auto

declare ClearTags_loop.simps [simp del]

definition ClearTags :: "'a T_scheme IdList \<Rightarrow> 'a T_scheme IdList" where
  "ClearTags l = ClearTags_loop l 0"

function Tag_loop :: "'a T_scheme IdList \<Rightarrow> H \<Rightarrow> int \<Rightarrow> int \<Rightarrow> 'a T_scheme IdList" where
  "Tag_loop l hh tag' i =
     (if i < n l then
        Tag_loop (if v (h (elem l i)) = v hh
                  then l\<lparr>elem := (elem l)(i := (elem l i)\<lparr>tag := tag'\<rparr>)\<rparr>
                  else l) hh tag' (i + 1)
      else l)"
  by pat_completeness auto
termination
  by (relation "measure (\<lambda>(l, hh, tag', i). nat (n l - i))") auto

declare Tag_loop.simps [simp del]

definition Tag :: "'a T_scheme IdList \<Rightarrow> H \<Rightarrow> int \<Rightarrow> 'a T_scheme IdList" where
  "Tag l hh tag' = Tag_loop l hh tag' 0"

function RemoveTagged_loop ::
  "'a T_scheme IdList \<Rightarrow> int \<Rightarrow> int \<Rightarrow> 'a T_scheme IdList \<times> int" where
  "RemoveTagged_loop l src dest =
     (if src < n l then
        (if tag (elem l src) \<noteq> 0 then RemoveTagged_loop l (src + 1) dest
         else RemoveTagged_loop
                (if src \<noteq> dest then l\<lparr>elem := (elem l)(dest := elem l src)\<rparr> else l)
                (src + 1) (dest + 1))
      else (l, dest))"
  by pat_completeness auto
termination
  by (relation "measure (\<lambda>(l, src, dest). nat (n l - src))") auto

declare RemoveTagged_loop.simps [simp del]

definition RemoveTagged :: "'a T_scheme IdList \<Rightarrow> 'a T_scheme IdList" where
  "RemoveTagged l = (case RemoveTagged_loop l 0 0 of (l', dest) \<Rightarrow> l'\<lparr>n := dest\<rparr>)"

definition RemoveById :: "'a T_scheme IdList \<Rightarrow> H \<Rightarrow> error + 'a T_scheme IdList" where
  "RemoveById l hh =
     (let l1 = ClearTags l
      in case FindById l1 hh of
           Inl e \<Rightarrow> Inl e
         | Inr i \<Rightarrow> Inr (RemoveTagged (l1\<lparr>elem := (elem l1)(i := (elem l1 i)\<lparr>tag := 1\<rparr>)\<rparr>)))"

subsection \<open>Vocabulary of the properties\<close>

text \<open>The live elements of an identifier list and their handle values, in order.\<close>

definition contents :: "'e IdList \<Rightarrow> 'e list" where
  "contents l = map (elem l) [0..n l - 1]"

definition handles :: "'a T_scheme IdList \<Rightarrow> uint32_t list" where
  "handles l = map (\<lambda>e. v (h e)) (contents l)"

text \<open>
  The invariant of an identifier list: the count is not negative and the handle values
  of the live elements ascend strictly.
\<close>

definition IdList_inv :: "'a T_scheme IdList \<Rightarrow> bool" where
  "IdList_inv l \<longleftrightarrow> 0 \<le> n l \<and> sorted_wrt (<) (handles l)"

text \<open>
  The first statement of \<^verbatim>\<open>Add\<close>, on its own: the container once room for one more
  element has been made.
\<close>

definition grown :: "'a T_scheme IdList \<Rightarrow> 'a T_scheme IdList" where
  "grown l = (if n l \<ge> elemsAllocated l
              then l\<lparr>elemsAllocated := (elemsAllocated l + 32) * 2,
                     elem := MemRealloc (elem l) ((elemsAllocated l + 32) * 2)\<rparr>
              else l)"

text \<open>
  Sequences of calls on one container. A run stops at the first call that aborts; it
  collects the handles that \<^verbatim>\<open>AddAndAssignId\<close> returned, in order.
\<close>

datatype 'a call = CallAdd "'a T_scheme" | CallAddAndAssignId "'a T_scheme" | CallRemoveById H

fun step ::
  "'a T_scheme IdList \<Rightarrow> 'a call \<Rightarrow> (error + 'a T_scheme IdList \<times> uint32_t list) option" where
  "step l (CallAdd t) =
     (case Add l t of
        None \<Rightarrow> None
      | Some (Inl e) \<Rightarrow> Some (Inl e)
      | Some (Inr l') \<Rightarrow> Some (Inr (l', [])))"
| "step l (CallAddAndAssignId t) =
     (case AddAndAssignId l t of
        None \<Rightarrow> None
      | Some (Inl e) \<Rightarrow> Some (Inl e)
      | Some (Inr (l', t', hh)) \<Rightarrow> Some (Inr (l', [v hh])))"
| "step l (CallRemoveById hh) =
     (case RemoveById l hh of
        Inl e \<Rightarrow> Some (Inl e)
      | Inr l' \<Rightarrow> Some (Inr (l', [])))"

fun run ::
  "'a T_scheme IdList \<Rightarrow> 'a call list \<Rightarrow> (error + 'a T_scheme IdList \<times> uint32_t list) option" where
  "run l [] = Some (Inr (l, []))"
| "run l (c # cs) =
     (case step l c of
        None \<Rightarrow> None
      | Some (Inl e) \<Rightarrow> Some (Inl e)
      | Some (Inr (l', hs)) \<Rightarrow>
          (case run l' cs of
             None \<Rightarrow> None
           | Some (Inl e) \<Rightarrow> Some (Inl e)
           | Some (Inr (l'', hs')) \<Rightarrow> Some (Inr (l'', hs @ hs'))))"

text \<open>
  A run never assigns a handle twice when the handles it collected are pairwise
  distinct.
\<close>

definition assigns_fresh_handles :: "'a T_scheme IdList \<Rightarrow> 'a call list \<Rightarrow> bool" where
  "assigns_fresh_handles l cs =
     (case run l cs of Some (Inr (l', hs)) \<Rightarrow> distinct hs | _ \<Rightarrow> True)"

subsection \<open>Sample values\<close>

text \<open>
  Concrete elements and containers on which the theorems are instantiated: an element
  with handle value \<open>k\<close> and a given tag, and the container that holds the elements of
  a list in its first cells.
\<close>

definition item :: "uint32_t \<Rightarrow> int \<Rightarrow> T" where
  "item k tag' = \<lparr>tag = tag', h = \<lparr>v = k\<rparr>\<rparr>"

definition IdList_of :: "T list \<Rightarrow> T IdList" where
  "IdList_of xs =
     \<lparr>elem = (\<lambda>j. if 0 \<le> j \<and> j < int (length xs) then xs ! nat j else item 0 0),
      n = int (length xs), elemsAllocated = int (length xs)\<rparr>"

definition List_of :: "T list \<Rightarrow> T List" where
  "List_of xs =
     \<lparr>List.elem = (\<lambda>j. if 0 \<le> j \<and> j < int (length xs) then xs ! nat j else item 0 0),
      List.n = int (length xs), List.elemsAllocated = int (length xs)\<rparr>"

section \<open>RgbaColor: the packed word\<close>

lemma byte_inverted: "255 - (x :: 8 word) = NOT x"
  by (simp add: not_eq_complement)

lemma uint_byte_le: "uint (x :: 8 word) \<le> 255"
  using uint_lt2p [of x] by simp

lemma int_255_minus_byte: "255 - uint (x :: 8 word) = uint (NOT x)"
proof -
  have "uint (255 - x) = uint (255 :: 8 word) - uint x"
    using uint_byte_le [of x] by (simp add: uint_sub_if')
  then show ?thesis by (simp add: byte_inverted)
qed

lemma mask_255: "(255 :: 32 word) = mask 8"
  by (simp add: mask_eq_exp_minus_1)

lemma and_255_ucast: "(w :: 32 word) AND 255 = ucast (ucast w :: 8 word)"
  unfolding mask_255 by (rule bit_word_eqI) (auto simp add: bit_simps)

lemma word_255_minus_byte: "(255 :: 32 word) - ucast (x :: 8 word) = ucast (NOT x)"
proof -
  have "(word_of_int 255 :: 32 word) - word_of_int (uint x) = word_of_int (255 - uint x)"
    by (rule wi_hom_sub)
  then show ?thesis unfolding int_255_minus_byte ucast_eq by simp
qed

lemma sint_ucast_byte: "sint (ucast (x :: 8 word) :: 32 word) = uint x"
  by (rule bit_eqI) (auto simp add: bit_simps min_def dest: bit_imp_le_length)

text \<open>Both conversions, bit field by bit field.\<close>

lemma FromPackedInt_bytes:
  "FromPackedInt w =
     \<lparr>red = ucast w, green = ucast (drop_bit 8 w), blue = ucast (drop_bit 16 w),
      alpha = NOT (ucast (drop_bit 24 w))\<rparr>"
  by (simp add: FromPackedInt_def From_def and_255_ucast word_255_minus_byte sint_ucast_byte)

lemma ToPackedInt_bytes:
  "ToPackedInt c =
     ucast (red c) OR push_bit 8 (ucast (green c)) OR push_bit 16 (ucast (blue c)) OR
     push_bit 24 (ucast (NOT (alpha c)))"
  unfolding ToPackedInt_def int_255_minus_byte
  by (rule bit_word_eqI) (auto simp add: bit_simps)

text \<open>
  C1. Unpacking a packed colour gives the colour back: the four fields of
  \<open>FromPackedInt (ToPackedInt c)\<close> are those of \<open>c\<close>, for every colour \<open>c\<close>.
\<close>

theorem FromPackedInt_ToPackedInt: "FromPackedInt (ToPackedInt c) = c"
proof (cases c)
  case (fields r g b a)
  have "ucast (ToPackedInt c) = r" "ucast (drop_bit 8 (ToPackedInt c)) = g"
    "ucast (drop_bit 16 (ToPackedInt c)) = b" "NOT (ucast (drop_bit 24 (ToPackedInt c))) = a"
    unfolding ToPackedInt_bytes fields
    by (rule bit_word_eqI; auto simp add: bit_simps dest: bit_imp_le_length)+
  then show ?thesis
    by (simp add: FromPackedInt_bytes fields)
qed

text \<open>
  C2. The packed word is red in the low byte, green shifted left by 8, blue shifted
  left by 16 and the inverted alpha \<open>255 - alpha\<close> shifted left by 24, combined by
  bitwise or, all as 32-bit words.
\<close>

theorem ToPackedInt_layout:
  "ToPackedInt c =
     ucast (red c) OR push_bit 8 (ucast (green c)) OR push_bit 16 (ucast (blue c)) OR
     push_bit 24 (255 - ucast (alpha c))"
  by (simp add: ToPackedInt_bytes word_255_minus_byte)

text \<open>
  C9. Packing an unpacked word gives the word back, for every 32-bit word: the
  decoding loses no bit.
\<close>

theorem ToPackedInt_FromPackedInt: "ToPackedInt (FromPackedInt w) = w"
  unfolding FromPackedInt_bytes ToPackedInt_bytes RgbaColor.simps
proof (rule bit_word_eqI)
  fix k :: nat
  assume "k < LENGTH(32)"
  then consider "k < 8" | "8 \<le> k" "k < 16" | "16 \<le> k" "k < 24" | "24 \<le> k" "k < 32"
    by fastforce
  then show "bit ((ucast (ucast w :: 8 word) :: 32 word) OR
                 push_bit 8 (ucast (ucast (drop_bit 8 w) :: 8 word)) OR
                 push_bit 16 (ucast (ucast (drop_bit 16 w) :: 8 word)) OR
                 push_bit 24 (ucast (NOT (NOT (ucast (drop_bit 24 w) :: 8 word))))) k = bit w k"
    by cases (auto simp add: bit_simps)
qed

section \<open>The identifier list: contents and invariant\<close>

lemma c_div_2_nonneg: "0 \<le> a \<Longrightarrow> c_div a 2 = a div 2"
  by (simp add: c_div_def sgn_if)

lemma length_contents: "length (contents l) = nat (n l)"
  by (simp add: contents_def)

lemma nth_contents: "k < nat (n l) \<Longrightarrow> contents l ! k = elem l (int k)"
  by (simp add: contents_def)

lemma set_contents: "set (contents l) = {elem l j | j. 0 \<le> j \<and> j < n l}"
  by (auto simp add: contents_def)

lemma set_handles: "set (handles l) = {v (h (elem l j)) | j. 0 \<le> j \<and> j < n l}"
  by (auto simp add: handles_def set_contents)

lemma IdList_inv_iff:
  "IdList_inv l \<longleftrightarrow>
     0 \<le> n l \<and> (\<forall>i j. 0 \<le> i \<and> i < j \<and> j < n l \<longrightarrow> v (h (elem l i)) < v (h (elem l j)))"
proof -
  have "sorted_wrt (<) (handles l) \<longleftrightarrow>
          (\<forall>i j. 0 \<le> i \<and> i < j \<and> j < n l \<longrightarrow> v (h (elem l i)) < v (h (elem l j)))"
    (is "?L \<longleftrightarrow> ?R")
  proof
    assume L: ?L
    show ?R
    proof (intro allI impI)
      fix i j :: int
      assume ij: "0 \<le> i \<and> i < j \<and> j < n l"
      then have "nat i < nat j" "nat j < length (handles l)"
        by (simp_all add: handles_def length_contents)
      with L have "handles l ! nat i < handles l ! nat j"
        by (simp add: sorted_wrt_iff_nth_less)
      with ij show "v (h (elem l i)) < v (h (elem l j))"
        by (simp add: handles_def nth_contents length_contents)
    qed
  next
    assume R: ?R
    show ?L
      unfolding sorted_wrt_iff_nth_less
    proof (intro allI impI)
      fix a b :: nat
      assume ab: "a < b" "b < length (handles l)"
      then have "0 \<le> int a \<and> int a < int b \<and> int b < n l"
        by (simp add: handles_def length_contents)
      with R have "v (h (elem l (int a))) < v (h (elem l (int b)))"
        by blast
      with ab show "handles l ! a < handles l ! b"
        by (simp add: handles_def nth_contents length_contents)
    qed
  qed
  then show ?thesis by (simp add: IdList_inv_def)
qed

lemma Add_loop_sorted:
  assumes srt: "\<forall>i j. 0 \<le> i \<and> i < j \<and> j < n l \<longrightarrow> v (h (elem l i)) < v (h (elem l j))"
    and bounds: "0 \<le> first" "first \<le> last'" "last' \<le> n l"
    and below: "\<forall>j. 0 \<le> j \<and> j < first \<longrightarrow> v (h (elem l j)) < v (h t)"
    and above: "\<forall>j. last' \<le> j \<and> j < n l \<longrightarrow> v (h t) < v (h (elem l j))"
  shows "if \<exists>j. first \<le> j \<and> j < last' \<and> v (h (elem l j)) = v (h t)
         then Add_loop l t first last' = Some (Inl Oops)
         else \<exists>i. Add_loop l t first last' = Some (Inr i) \<and> first \<le> i \<and> i \<le> last' \<and>
                (\<forall>j. 0 \<le> j \<and> j < i \<longrightarrow> v (h (elem l j)) < v (h t)) \<and>
                (\<forall>j. i \<le> j \<and> j < n l \<longrightarrow> v (h t) < v (h (elem l j)))"
  using bounds below above
proof (induction "nat (last' - first)" arbitrary: first last' rule: less_induct)
  case less
  show ?case
  proof (cases "first = last'")
    case True
    with less.prems show ?thesis
      by (subst Add_loop.simps, subst (2) Add_loop.simps) auto
  next
    case False
    define mid where "mid = (first + last') div 2"
    have cmid: "c_div (first + last') 2 = mid"
      using less.prems by (simp add: c_div_2_nonneg mid_def)
    have mid: "first \<le> mid" "mid < last'"
      using False less.prems by (auto simp add: mid_def)
    consider (gt) "v (h t) < v (h (elem l mid))" | (lt) "v (h (elem l mid)) < v (h t)"
      | (eq) "v (h (elem l mid)) = v (h t)"
      by fastforce
    then show ?thesis
    proof cases
      case gt
      have above': "\<forall>j. mid \<le> j \<and> j < n l \<longrightarrow> v (h t) < v (h (elem l j))"
      proof (intro allI impI)
        fix j assume j: "mid \<le> j \<and> j < n l"
        show "v (h t) < v (h (elem l j))"
        proof (cases "j = mid")
          case True with gt show ?thesis by simp
        next
          case False
          with j mid less.prems srt have "v (h (elem l mid)) < v (h (elem l j))"
            by (metis (no_types, lifting) order_le_less order_trans) 
          with gt show ?thesis by simp
        qed
      qed
      have unf: "Add_loop l t first last' = Add_loop l t first mid"
        using False gt by (subst Add_loop.simps) (simp add: cmid Let_def)
      have ex: "(\<exists>j. first \<le> j \<and> j < last' \<and> v (h (elem l j)) = v (h t)) \<longleftrightarrow>
                (\<exists>j. first \<le> j \<and> j < mid \<and> v (h (elem l j)) = v (h t))"
        using above' mid less.prems
        by (metis linorder_not_less order_less_irrefl order_less_le_trans order_less_trans)
      have "nat (mid - first) < nat (last' - first)"
        using mid by simp
      from less.hyps [OF this less.prems(1) mid(1) _ less.prems(4) above'] mid less.prems
      show ?thesis
        unfolding unf ex by (auto split: if_splits)
    next
      case lt
      have below': "\<forall>j. 0 \<le> j \<and> j < mid + 1 \<longrightarrow> v (h (elem l j)) < v (h t)"
      proof (intro allI impI)
        fix j assume j: "0 \<le> j \<and> j < mid + 1"
        show "v (h (elem l j)) < v (h t)"
        proof (cases "j = mid")
          case True with lt show ?thesis by simp
        next
          case False
          with j mid less.prems srt have "v (h (elem l j)) < v (h (elem l mid))"
            by simp
          with lt show ?thesis by simp
        qed
      qed
      have unf: "Add_loop l t first last' = Add_loop l t (mid + 1) last'"
        using False lt by (subst Add_loop.simps) (auto simp add: cmid Let_def)
      have ex: "(\<exists>j. first \<le> j \<and> j < last' \<and> v (h (elem l j)) = v (h t)) \<longleftrightarrow>
                (\<exists>j. mid + 1 \<le> j \<and> j < last' \<and> v (h (elem l j)) = v (h t))"
        using below' mid less.prems
        by (smt (verit) order_less_irrefl)
      have "nat (last' - (mid + 1)) < nat (last' - first)"
        using mid by simp
      from less.hyps [OF this _ _ less.prems(3) below' less.prems(5)] mid less.prems
      show ?thesis
        unfolding unf ex by (auto split: if_splits)
    next
      case eq
      have "Add_loop l t first last' = Some (Inl Oops)"
        using False eq by (subst Add_loop.simps) (simp add: cmid Let_def)
      with eq mid show ?thesis by auto
    qed
  qed
qed


text \<open>What \<open>Add\<close> does to a list that satisfies the invariant.\<close>

lemma grown_fields: "elem (grown l) = elem l" "n (grown l) = n l"
  by (simp_all add: grown_def MemRealloc_def)

lemma Add_grown:
  "Add l t =
     (case Add_loop (grown l) t 0 (n l) of
        None \<Rightarrow> None
      | Some (Inl e) \<Rightarrow> Some (Inl e)
      | Some (Inr i) \<Rightarrow>
          Some (Inr ((grown l)\<lparr>elem := (memmove (elem l) (i + 1) i (n l - i))(i := t),
                               n := n l + 1\<rparr>)))"
  unfolding Add_def grown_def [symmetric] Let_def grown_fields ..

lemma Add_duplicate:
  assumes "IdList_inv l" "v (h t) \<in> set (handles l)"
  shows "Add l t = Some (Inl Oops)"
proof -
  from assms(2) obtain j where j: "0 \<le> j" "j < n l" "v (h (elem l j)) = v (h t)"
    by (auto simp add: set_handles)
  have "if \<exists>j. 0 \<le> j \<and> j < n (grown l) \<and> v (h (elem (grown l) j)) = v (h t)
        then Add_loop (grown l) t 0 (n (grown l)) = Some (Inl Oops)
        else \<exists>i. Add_loop (grown l) t 0 (n (grown l)) = Some (Inr i) \<and> 0 \<le> i \<and> i \<le> n (grown l) \<and>
                (\<forall>j. 0 \<le> j \<and> j < i \<longrightarrow> v (h (elem (grown l) j)) < v (h t)) \<and>
                (\<forall>j. i \<le> j \<and> j < n (grown l) \<longrightarrow> v (h t) < v (h (elem (grown l) j)))"
    using assms(1) by (intro Add_loop_sorted) (auto simp add: IdList_inv_iff grown_fields)
  with j have "Add_loop (grown l) t 0 (n l) = Some (Inl Oops)"
    by (auto simp add: grown_fields split: if_splits)
  then show ?thesis by (simp add: Add_grown)
qed

lemma Add_fresh:
  assumes "IdList_inv l" "v (h t) \<notin> set (handles l)"
  shows "\<exists>i. 0 \<le> i \<and> i \<le> n l \<and>
           (\<forall>j. 0 \<le> j \<and> j < i \<longrightarrow> v (h (elem l j)) < v (h t)) \<and>
           (\<forall>j. i \<le> j \<and> j < n l \<longrightarrow> v (h t) < v (h (elem l j))) \<and>
           Add l t = Some (Inr ((grown l)\<lparr>elem := (memmove (elem l) (i + 1) i (n l - i))(i := t),
                                          n := n l + 1\<rparr>))"
proof -
  from assms(2) have none: "\<not> (\<exists>j. 0 \<le> j \<and> j < n l \<and> v (h (elem l j)) = v (h t))"
    by (auto simp add: set_handles)
  have "if \<exists>j. 0 \<le> j \<and> j < n (grown l) \<and> v (h (elem (grown l) j)) = v (h t)
        then Add_loop (grown l) t 0 (n (grown l)) = Some (Inl Oops)
        else \<exists>i. Add_loop (grown l) t 0 (n (grown l)) = Some (Inr i) \<and> 0 \<le> i \<and> i \<le> n (grown l) \<and>
                (\<forall>j. 0 \<le> j \<and> j < i \<longrightarrow> v (h (elem (grown l) j)) < v (h t)) \<and>
                (\<forall>j. i \<le> j \<and> j < n (grown l) \<longrightarrow> v (h t) < v (h (elem (grown l) j)))"
    using assms(1) by (intro Add_loop_sorted) (auto simp add: IdList_inv_iff grown_fields)
  with none obtain i where i: "Add_loop (grown l) t 0 (n l) = Some (Inr i)" "0 \<le> i" "i \<le> n l"
      "\<forall>j. 0 \<le> j \<and> j < i \<longrightarrow> v (h (elem l j)) < v (h t)"
      "\<forall>j. i \<le> j \<and> j < n l \<longrightarrow> v (h t) < v (h (elem l j))"
    by (auto simp add: grown_fields split: if_splits)
  then show ?thesis
    by (intro exI [of _ i]) (simp add: Add_grown)
qed

lemma Add_fresh_inv:
  assumes "IdList_inv l" "v (h t) \<notin> set (handles l)" "Add l t = Some (Inr l')"
  shows "IdList_inv l'" "set (handles l') = insert (v (h t)) (set (handles l))"
proof -
  from Add_fresh [OF assms(1,2)] assms(3) obtain i where
    i: "0 \<le> i" "i \<le> n l"
      "\<forall>j. 0 \<le> j \<and> j < i \<longrightarrow> v (h (elem l j)) < v (h t)"
      "\<forall>j. i \<le> j \<and> j < n l \<longrightarrow> v (h t) < v (h (elem l j))"
    and l': "l' = (grown l)\<lparr>elem := (memmove (elem l) (i + 1) i (n l - i))(i := t), n := n l + 1\<rparr>"
    by auto
  have nl': "n l' = n l + 1" by (simp add: l')
  have cell: "elem l' j = (if j = i then t else if i < j \<and> j \<le> n l then elem l (j - 1) else elem l j)" for j
    by (auto simp add: l' memmove_def)
  from assms(1) have srt: "\<And>a b. 0 \<le> a \<Longrightarrow> a < b \<Longrightarrow> b < n l \<Longrightarrow> v (h (elem l a)) < v (h (elem l b))"
    and n0: "0 \<le> n l"
    by (simp_all add: IdList_inv_iff)
  show "IdList_inv l'"
    unfolding IdList_inv_iff nl'
  proof (intro conjI allI impI)
    show "0 \<le> n l + 1" using n0 by simp
  next
    fix a b assume ab: "0 \<le> a \<and> a < b \<and> b < n l + 1"
    consider "b < i" | "b = i" | "a < i" "i < b" | "a = i" | "i < a"
      using ab by linarith
    then show "v (h (elem l' a)) < v (h (elem l' b))"
    proof cases
      case 1 with ab i show ?thesis by (simp add: cell srt)
    next
      case 2 with ab i show ?thesis by (simp add: cell)
    next
      case 3
      with ab i have "v (h (elem l a)) < v (h t)" "v (h t) < v (h (elem l (b - 1)))"
        by simp_all
      with 3 ab show ?thesis by (simp add: cell)
    next
      case 4 with ab i show ?thesis by (simp add: cell)
    next
      case 5 with ab i show ?thesis by (simp add: cell srt)
    qed
  qed
  show "set (handles l') = insert (v (h t)) (set (handles l))"
  proof (intro set_eqI iffI)
    fix x assume "x \<in> set (handles l')"
    then obtain j where j: "0 \<le> j" "j < n l + 1" "x = v (h (elem l' j))"
      by (auto simp add: set_handles nl')
    show "x \<in> insert (v (h t)) (set (handles l))"
    proof (cases "j = i")
      case True with j show ?thesis by (simp add: cell)
    next
      case False
      show ?thesis
      proof (cases "i < j")
        case True
        with j have "x = v (h (elem l (j - 1)))" "0 \<le> j - 1" "j - 1 < n l"
          using i by (simp_all add: cell)
        then show ?thesis unfolding set_handles by blast
      next
        case False
        with \<open>j \<noteq> i\<close> j i have "x = v (h (elem l j))" "0 \<le> j" "j < n l"
          by (simp_all add: cell)
        then show ?thesis unfolding set_handles by blast
      qed
    qed
  next
    fix x assume "x \<in> insert (v (h t)) (set (handles l))"
    then consider "x = v (h t)" | j where "0 \<le> j" "j < n l" "x = v (h (elem l j))"
      by (auto simp add: set_handles)
    then show "x \<in> set (handles l')"
    proof cases
      case 1
      with i have "x = v (h (elem l' i))" "0 \<le> i" "i < n l'"
        by (simp_all add: cell nl')
      then show ?thesis unfolding set_handles by blast
    next
      case 2
      show ?thesis
      proof (cases "j < i")
        case True
        with 2 i have "x = v (h (elem l' j))" "0 \<le> j" "j < n l'"
          by (simp_all add: cell nl')
        then show ?thesis unfolding set_handles by blast
      next
        case False
        with 2 i have "x = v (h (elem l' (j + 1)))" "0 \<le> j + 1" "j + 1 < n l'"
          by (simp_all add: cell nl')
        then show ?thesis unfolding set_handles by blast
      qed
    qed
  qed
qed

section \<open>Lookup\<close>

lemma c_div_2_between:
  "first \<le> last' \<Longrightarrow> first \<le> c_div (first + last') 2 \<and> c_div (first + last') 2 \<le> last'"
  by (auto simp add: c_div_def sgn_if)

lemma FindByIdNoOops_loop_stop:
  "\<not> first \<le> last' \<Longrightarrow> FindByIdNoOops_loop l hh first last' = None"
  by (subst FindByIdNoOops_loop.simps) simp

lemma FindByIdNoOops_loop_gt:
  "first \<le> last' \<Longrightarrow> v hh < v (h (elem l (c_div (first + last') 2))) \<Longrightarrow>
     FindByIdNoOops_loop l hh first last' =
     FindByIdNoOops_loop l hh first (c_div (first + last') 2 - 1)"
  by (subst FindByIdNoOops_loop.simps) (simp add: Let_def)

lemma FindByIdNoOops_loop_lt:
  "first \<le> last' \<Longrightarrow> v (h (elem l (c_div (first + last') 2))) < v hh \<Longrightarrow>
     FindByIdNoOops_loop l hh first last' =
     FindByIdNoOops_loop l hh (c_div (first + last') 2 + 1) last'"
  by (subst FindByIdNoOops_loop.simps) (auto simp add: Let_def dest: less_asym)

lemma FindByIdNoOops_loop_eq:
  "first \<le> last' \<Longrightarrow> v (h (elem l (c_div (first + last') 2))) = v hh \<Longrightarrow>
     FindByIdNoOops_loop l hh first last' = Some (c_div (first + last') 2)"
  by (subst FindByIdNoOops_loop.simps) (simp add: Let_def)

lemma FindByIdNoOops_loop_sound:
  "FindByIdNoOops_loop l hh first last' = Some m \<Longrightarrow>
     first \<le> m \<and> m \<le> last' \<and> v (h (elem l m)) = v hh"
proof (induction "nat (last' - first + 1)" arbitrary: first last' rule: less_induct)
  case less
  show ?case
  proof (cases "first \<le> last'")
    case False
    with less.prems show ?thesis by (simp add: FindByIdNoOops_loop_stop)
  next
    case True
    define mid where "mid = c_div (first + last') 2"
    have mid: "first \<le> mid" "mid \<le> last'"
      using c_div_2_between [OF True] by (simp_all add: mid_def)
    consider (gt) "v hh < v (h (elem l mid))" | (lt) "v (h (elem l mid)) < v hh"
      | (eq) "v (h (elem l mid)) = v hh"
      by fastforce
    then show ?thesis
    proof cases
      case gt
      have "FindByIdNoOops_loop l hh first (mid - 1) = Some m"
        using FindByIdNoOops_loop_gt [OF True, of hh l] gt less.prems
        unfolding mid_def by simp
      moreover have "nat (mid - 1 - first + 1) < nat (last' - first + 1)"
        using mid by simp
      ultimately have "first \<le> m \<and> m \<le> mid - 1 \<and> v (h (elem l m)) = v hh"
        using less.hyps by blast
      with mid show ?thesis by simp
    next
      case lt
      have "FindByIdNoOops_loop l hh (mid + 1) last' = Some m"
        using FindByIdNoOops_loop_lt [OF True, of l hh] lt less.prems
        unfolding mid_def by simp
      moreover have "nat (last' - (mid + 1) + 1) < nat (last' - first + 1)"
        using mid by simp
      ultimately have "mid + 1 \<le> m \<and> m \<le> last' \<and> v (h (elem l m)) = v hh"
        using less.hyps by blast
      with mid show ?thesis by simp
    next
      case eq
      have "m = mid"
        using FindByIdNoOops_loop_eq [OF True, of l hh] eq less.prems
        unfolding mid_def by simp
      with eq mid show ?thesis by simp
    qed
  qed
qed

lemma FindByIdNoOops_loop_complete:
  assumes srt: "\<forall>i j. 0 \<le> i \<and> i < j \<and> j < n l \<longrightarrow> v (h (elem l i)) < v (h (elem l j))"
  shows "0 \<le> first \<Longrightarrow> last' < n l \<Longrightarrow> first \<le> k \<Longrightarrow> k \<le> last' \<Longrightarrow>
     v (h (elem l k)) = v hh \<Longrightarrow> FindByIdNoOops_loop l hh first last' = Some k"
proof (induction "nat (last' - first + 1)" arbitrary: first last' rule: less_induct)
  case less
  then have True: "first \<le> last'" by simp
  define mid where "mid = c_div (first + last') 2"
  have mid: "first \<le> mid" "mid \<le> last'"
    using c_div_2_between [OF True] by (simp_all add: mid_def)
  have mono: "a < b \<Longrightarrow> 0 \<le> a \<Longrightarrow> b < n l \<Longrightarrow> v (h (elem l a)) < v (h (elem l b))" for a b
    using srt by blast
  consider (gt) "v hh < v (h (elem l mid))" | (lt) "v (h (elem l mid)) < v hh"
    | (eq) "v (h (elem l mid)) = v hh"
    by fastforce
  then show ?case
  proof cases
    case gt
    have "k < mid"
    proof (rule ccontr)
      assume "\<not> k < mid"
      then have "mid = k \<or> mid < k" by linarith
      then have "v (h (elem l mid)) \<le> v (h (elem l k))"
        using mono [of mid k] mid less.prems by auto
      with gt less.prems(5) show False by simp
    qed
    moreover have "nat (mid - 1 - first + 1) < nat (last' - first + 1)"
      using mid by simp
    ultimately have "FindByIdNoOops_loop l hh first (mid - 1) = Some k"
      using less.hyps [of "mid - 1" first] less.prems mid by simp
    then show ?thesis
      using FindByIdNoOops_loop_gt [OF True, of hh l] gt unfolding mid_def by simp
  next
    case lt
    have "mid < k"
    proof (rule ccontr)
      assume "\<not> mid < k"
      then have "mid = k \<or> k < mid" by linarith
      then have "v (h (elem l k)) \<le> v (h (elem l mid))"
        using mono [of k mid] mid less.prems by auto
      with lt less.prems(5) show False by simp
    qed
    moreover have "nat (last' - (mid + 1) + 1) < nat (last' - first + 1)"
      using mid by simp
    ultimately have "FindByIdNoOops_loop l hh (mid + 1) last' = Some k"
      using less.hyps [of last' "mid + 1"] less.prems mid by simp
    then show ?thesis
      using FindByIdNoOops_loop_lt [OF True, of l hh] lt unfolding mid_def by simp
  next
    case eq
    have "mid = k"
    proof (rule ccontr)
      assume "mid \<noteq> k"
      then have "mid < k \<or> k < mid" by linarith
      then have "v (h (elem l mid)) \<noteq> v (h (elem l k))"
        using mono [of k mid] mono [of mid k] mid less.prems by auto
      with eq less.prems(5) show False by simp
    qed
    then show ?thesis
      using FindByIdNoOops_loop_eq [OF True, of l hh] eq unfolding mid_def by simp
  qed
qed

lemma FindByIdNoOops_miss:
  "v hh \<notin> set (handles l) \<Longrightarrow> FindByIdNoOops l hh = None"
proof (rule ccontr)
  assume miss: "v hh \<notin> set (handles l)" and "FindByIdNoOops l hh \<noteq> None"
  then obtain m where "FindByIdNoOops_loop l hh 0 (n l - 1) = Some m"
    by (auto simp add: FindByIdNoOops_def)
  from FindByIdNoOops_loop_sound [OF this] have "0 \<le> m" "m < n l" "v (h (elem l m)) = v hh"
    by simp_all
  then have "v hh \<in> set (handles l)"
    unfolding set_handles by force
  with miss show False by simp
qed

lemma FindByIdNoOops_hit:
  assumes "IdList_inv l" "0 \<le> k" "k < n l" "v (h (elem l k)) = v hh"
  shows "FindByIdNoOops l hh = Some k"
  unfolding FindByIdNoOops_def
  using assms by (intro FindByIdNoOops_loop_complete) (auto simp add: IdList_inv_iff)

section \<open>Tags\<close>

lemma elem_update_eqI: "f = g \<Longrightarrow> l\<lparr>elem := f\<rparr> = l\<lparr>elem := g\<rparr>"
  by simp

lemma ClearTags_loop_eq:
  "ClearTags_loop l i =
     l\<lparr>elem := (\<lambda>j. if i \<le> j \<and> j < n l then (elem l j)\<lparr>tag := 0\<rparr> else elem l j)\<rparr>"
proof (induction l i rule: ClearTags_loop.induct)
  case (1 l i)
  show ?case
  proof (cases "i < n l")
    case False
    then have "ClearTags_loop l i = l"
      by (subst ClearTags_loop.simps) simp
    moreover have "(if i \<le> j \<and> j < n l then (elem l j)\<lparr>tag := 0\<rparr> else elem l j) = elem l j" for j
      using False by auto
    then have "(\<lambda>j. if i \<le> j \<and> j < n l then (elem l j)\<lparr>tag := 0\<rparr> else elem l j) = elem l"
      by (intro ext)
    ultimately show ?thesis by simp
  next
    case True
    then have "ClearTags_loop l i =
        ClearTags_loop (l\<lparr>elem := (elem l)(i := (elem l i)\<lparr>tag := 0\<rparr>)\<rparr>) (i + 1)"
      by (subst ClearTags_loop.simps) simp
    also have "\<dots> = l\<lparr>elem := (\<lambda>j. if i \<le> j \<and> j < n l then (elem l j)\<lparr>tag := 0\<rparr> else elem l j)\<rparr>"
      unfolding "1.IH" [OF True] using True
      by (simp, intro elem_update_eqI) (auto simp add: fun_eq_iff)
    finally show ?thesis .
  qed
qed

lemma ClearTags_eq:
  "ClearTags l =
     l\<lparr>elem := (\<lambda>j. if 0 \<le> j \<and> j < n l then (elem l j)\<lparr>tag := 0\<rparr> else elem l j)\<rparr>"
  by (simp add: ClearTags_def ClearTags_loop_eq)

lemma Tag_loop_eq:
  "Tag_loop l hh tag' i =
     l\<lparr>elem := (\<lambda>j. if i \<le> j \<and> j < n l \<and> v (h (elem l j)) = v hh
                     then (elem l j)\<lparr>tag := tag'\<rparr> else elem l j)\<rparr>"
proof (induction l hh tag' i rule: Tag_loop.induct)
  case (1 l hh tag' i)
  show ?case
  proof (cases "i < n l")
    case False
    then have "Tag_loop l hh tag' i = l"
      by (subst Tag_loop.simps) simp
    moreover have "(if i \<le> j \<and> j < n l \<and> v (h (elem l j)) = v hh
                     then (elem l j)\<lparr>tag := tag'\<rparr> else elem l j) = elem l j" for j
      using False by auto
    then have "(\<lambda>j. if i \<le> j \<and> j < n l \<and> v (h (elem l j)) = v hh
                     then (elem l j)\<lparr>tag := tag'\<rparr> else elem l j) = elem l"
      by (intro ext)
    ultimately show ?thesis by simp
  next
    case True
    define l2 where "l2 = (if v (h (elem l i)) = v hh
                  then l\<lparr>elem := (elem l)(i := (elem l i)\<lparr>tag := tag'\<rparr>)\<rparr>
                  else l)"
    have l2: "n l2 = n l" "\<And>f. l2\<lparr>elem := f\<rparr> = l\<lparr>elem := f\<rparr>"
      "\<And>j. v (h (elem l2 j)) = v (h (elem l j))"
      "\<And>j. j \<noteq> i \<Longrightarrow> elem l2 j = elem l j"
      "v (h (elem l i)) = v hh \<Longrightarrow> elem l2 i = (elem l i)\<lparr>tag := tag'\<rparr>"
      "v (h (elem l i)) \<noteq> v hh \<Longrightarrow> elem l2 i = elem l i"
      by (simp_all add: l2_def)
    have "Tag_loop l hh tag' i = Tag_loop l2 hh tag' (i + 1)"
      using True unfolding l2_def by (subst Tag_loop.simps) simp
    also have "\<dots> = l\<lparr>elem := (\<lambda>j. if i + 1 \<le> j \<and> j < n l \<and> v (h (elem l j)) = v hh
                     then (elem l2 j)\<lparr>tag := tag'\<rparr> else elem l2 j)\<rparr>"
      using "1.IH" [OF True, folded l2_def] by (simp add: l2)
    also have "(\<lambda>j. if i + 1 \<le> j \<and> j < n l \<and> v (h (elem l j)) = v hh
                     then (elem l2 j)\<lparr>tag := tag'\<rparr> else elem l2 j) =
               (\<lambda>j. if i \<le> j \<and> j < n l \<and> v (h (elem l j)) = v hh
                     then (elem l j)\<lparr>tag := tag'\<rparr> else elem l j)"
    proof (rule ext)
      fix j
      show "(if i + 1 \<le> j \<and> j < n l \<and> v (h (elem l j)) = v hh
                then (elem l2 j)\<lparr>tag := tag'\<rparr> else elem l2 j) =
            (if i \<le> j \<and> j < n l \<and> v (h (elem l j)) = v hh
                then (elem l j)\<lparr>tag := tag'\<rparr> else elem l j)"
      proof (cases "j = i")
        case True
        with \<open>i < n l\<close> show ?thesis
          by (cases "v (h (elem l i)) = v hh") (simp_all add: l2)
      next
        case False
        then have "i + 1 \<le> j \<longleftrightarrow> i \<le> j" by linarith
        with False show ?thesis by (simp add: l2)
      qed
    qed
    finally show ?thesis .
  qed
qed

lemma Tag_eq:
  "Tag l hh tag' =
     l\<lparr>elem := (\<lambda>j. if 0 \<le> j \<and> j < n l \<and> v (h (elem l j)) = v hh
                     then (elem l j)\<lparr>tag := tag'\<rparr> else elem l j)\<rparr>"
  by (simp add: Tag_def Tag_loop_eq)

section \<open>Sweep\<close>

lemma upto_snoc: "a \<le> b + 1 \<Longrightarrow> [a..b + 1] = [a..b] @ [b + 1]"
  using upto_rec2 [of a "b + 1"] by simp

lemma RemoveTagged_loop_eq:
  "0 \<le> dest \<Longrightarrow> dest \<le> src \<Longrightarrow> RemoveTagged_loop l src dest = (l', d) \<Longrightarrow>
     n l' = n l \<and> elemsAllocated l' = elemsAllocated l \<and>
     map (elem l') [0..d - 1] =
       map (elem l) [0..dest - 1] @ filter (\<lambda>e. tag e = 0) (map (elem l) [src..n l - 1]) \<and>
     d = dest + int (length (filter (\<lambda>e. tag e = 0) (map (elem l) [src..n l - 1])))"
proof (induction l src dest arbitrary: l' d rule: RemoveTagged_loop.induct)
  case (1 l src dest)
  show ?case
  proof (cases "src < n l")
    case False
    with "1.prems" have "l' = l" "d = dest"
      by (subst (asm) RemoveTagged_loop.simps, simp)+
    with False show ?thesis by simp
  next
    case True
    then have split: "[src..n l - 1] = src # [src + 1..n l - 1]"
      by (simp add: upto_rec1)
    show ?thesis
    proof (cases "tag (elem l src) \<noteq> 0")
      case tagged: True
      have "RemoveTagged_loop l (src + 1) dest = (l', d)"
        using True "1.prems" tagged by (subst (asm) RemoveTagged_loop.simps) simp
      moreover have "dest \<le> src + 1"
        using "1.prems"(2) by simp
      ultimately have "n l' = n l \<and> elemsAllocated l' = elemsAllocated l \<and>
        map (elem l') [0..d - 1] =
           map (elem l) [0..dest - 1] @ filter (\<lambda>e. tag e = 0) (map (elem l) [src + 1..n l - 1]) \<and>
        d = dest + int (length (filter (\<lambda>e. tag e = 0) (map (elem l) [src + 1..n l - 1])))"
        by (intro "1.IH"(1) [OF True tagged "1.prems"(1)])
      then have "n l' = n l" "elemsAllocated l' = elemsAllocated l"
        "map (elem l') [0..d - 1] =
           map (elem l) [0..dest - 1] @ filter (\<lambda>e. tag e = 0) (map (elem l) [src + 1..n l - 1])"
        "d = dest + int (length (filter (\<lambda>e. tag e = 0) (map (elem l) [src + 1..n l - 1])))"
        by blast+
      moreover have feq: "filter (\<lambda>e. tag e = 0) (map (elem l) [src..n l - 1]) =
          filter (\<lambda>e. tag e = 0) (map (elem l) [src + 1..n l - 1])"
        using tagged unfolding split by simp
      ultimately show ?thesis unfolding feq by blast
    next
      case untagged: False
      define l2 where "l2 = (if src \<noteq> dest then l\<lparr>elem := (elem l)(dest := elem l src)\<rparr> else l)"
      have l2: "n l2 = n l" "elemsAllocated l2 = elemsAllocated l"
        "elem l2 = (elem l)(dest := elem l src)"
        by (auto simp add: l2_def)
      from True untagged "1.prems" have run: "RemoveTagged_loop l2 (src + 1) (dest + 1) = (l', d)"
        by (subst (asm) RemoveTagged_loop.simps) (simp add: l2_def)
      have low: "map (elem l2) [0..dest + 1 - 1] = map (elem l) [0..dest - 1] @ [elem l src]"
        using "1.prems"(1) upto_snoc [of 0 "dest - 1"] by (simp add: l2)
      have high: "map (elem l2) [src + 1..n l - 1] = map (elem l) [src + 1..n l - 1]"
        using "1.prems"(2) by (simp add: l2)
      have "\<not> tag (elem l src) \<noteq> 0" "0 \<le> dest + 1" "dest + 1 \<le> src + 1"
        using untagged "1.prems" by simp_all
      from "1.IH"(2) [OF True this run [unfolded l2_def], folded l2_def]
      have "n l' = n l2" "elemsAllocated l' = elemsAllocated l2"
        "map (elem l') [0..d - 1] =
          map (elem l2) [0..dest + 1 - 1] @ filter (\<lambda>e. tag e = 0) (map (elem l2) [src + 1..n l2 - 1])"
        "d = dest + 1 + int (length (filter (\<lambda>e. tag e = 0) (map (elem l2) [src + 1..n l2 - 1])))"
        by blast+
      then have "n l' = n l" "elemsAllocated l' = elemsAllocated l"
        "map (elem l') [0..d - 1] =
          (map (elem l) [0..dest - 1] @ [elem l src]) @
            filter (\<lambda>e. tag e = 0) (map (elem l) [src + 1..n l - 1])"
        "d = dest + 1 + int (length (filter (\<lambda>e. tag e = 0) (map (elem l) [src + 1..n l - 1])))"
        unfolding l2(1,2) low high by simp_all
      moreover have "filter (\<lambda>e. tag e = 0) (map (elem l) [src..n l - 1]) =
          elem l src # filter (\<lambda>e. tag e = 0) (map (elem l) [src + 1..n l - 1])"
        using untagged unfolding split by simp
      ultimately show ?thesis by simp
    qed
  qed
qed

lemma RemoveTagged_eq:
  "contents (RemoveTagged l) = filter (\<lambda>e. tag e = 0) (contents l)"
  "n (RemoveTagged l) = int (length (filter (\<lambda>e. tag e = 0) (contents l)))"
  "elemsAllocated (RemoveTagged l) = elemsAllocated l"
proof -
  obtain l' d where run: "RemoveTagged_loop l 0 0 = (l', d)"
    by (cases "RemoveTagged_loop l 0 0")
  have "(0::int) \<le> 0" by simp
  from RemoveTagged_loop_eq [OF this this run]
  have "n l' = n l" "elemsAllocated l' = elemsAllocated l"
    "map (elem l') [0..d - 1] =
       map (elem l) [0..0 - 1] @ filter (\<lambda>e. tag e = 0) (map (elem l) [0..n l - 1])"
    "d = 0 + int (length (filter (\<lambda>e. tag e = 0) (map (elem l) [0..n l - 1])))"
    by blast+
  then have *: "n l' = n l" "elemsAllocated l' = elemsAllocated l"
    "map (elem l') [0..d - 1] = filter (\<lambda>e. tag e = 0) (map (elem l) [0..n l - 1])"
    "d = int (length (filter (\<lambda>e. tag e = 0) (map (elem l) [0..n l - 1])))"
    by simp_all
  have fields: "elem (RemoveTagged l) = elem l'" "n (RemoveTagged l) = d"
    by (simp_all add: RemoveTagged_def run)
  show "contents (RemoveTagged l) = filter (\<lambda>e. tag e = 0) (contents l)"
    unfolding contents_def fields by (rule *(3))
  show "n (RemoveTagged l) = int (length (filter (\<lambda>e. tag e = 0) (contents l)))"
    unfolding contents_def fields by (rule *(4))
  show "elemsAllocated (RemoveTagged l) = elemsAllocated l"
    using *(2) by (simp add: RemoveTagged_def run)
qed

section \<open>List sweep\<close>

lemma List_RemoveTagged_loop_eq:
  "0 \<le> dest \<Longrightarrow> dest \<le> src \<Longrightarrow> List_RemoveTagged_loop l src dest = (l', d) \<Longrightarrow>
     List.n l' = List.n l \<and> List.elemsAllocated l' = List.elemsAllocated l \<and>
     map (List.elem l') [0..d - 1] =
       map (List.elem l) [0..dest - 1] @
         filter (\<lambda>e. tag e = 0) (map (List.elem l) [src..List.n l - 1]) \<and>
     d = dest + int (length (filter (\<lambda>e. tag e = 0) (map (List.elem l) [src..List.n l - 1])))"
proof (induction l src dest arbitrary: l' d rule: List_RemoveTagged_loop.induct)
  case (1 l src dest)
  show ?case
  proof (cases "src < List.n l")
    case False
    with "1.prems" have "l' = l" "d = dest"
      by (subst (asm) List_RemoveTagged_loop.simps, simp)+
    with False show ?thesis by simp
  next
    case True
    then have split: "[src..List.n l - 1] = src # [src + 1..List.n l - 1]"
      by (simp add: upto_rec1)
    show ?thesis
    proof (cases "tag (List.elem l src) \<noteq> 0")
      case tagged: True
      have "List_RemoveTagged_loop l (src + 1) dest = (l', d)"
        using True "1.prems" tagged by (subst (asm) List_RemoveTagged_loop.simps) simp
      moreover have "dest \<le> src + 1"
        using "1.prems"(2) by simp
      ultimately have "List.n l' = List.n l \<and> List.elemsAllocated l' = List.elemsAllocated l \<and>
        map (List.elem l') [0..d - 1] =
           map (List.elem l) [0..dest - 1] @
             filter (\<lambda>e. tag e = 0) (map (List.elem l) [src + 1..List.n l - 1]) \<and>
        d = dest + int (length (filter (\<lambda>e. tag e = 0) (map (List.elem l) [src + 1..List.n l - 1])))"
        by (intro "1.IH"(1) [OF True tagged "1.prems"(1)])
      moreover have feq: "filter (\<lambda>e. tag e = 0) (map (List.elem l) [src..List.n l - 1]) =
          filter (\<lambda>e. tag e = 0) (map (List.elem l) [src + 1..List.n l - 1])"
        using tagged unfolding split by simp
      ultimately show ?thesis unfolding feq by blast
    next
      case untagged: False
      define l2 where
        "l2 = (if src \<noteq> dest then l\<lparr>List.elem := (List.elem l)(dest := List.elem l src)\<rparr> else l)"
      have l2: "List.n l2 = List.n l" "List.elemsAllocated l2 = List.elemsAllocated l"
        "List.elem l2 = (List.elem l)(dest := List.elem l src)"
        by (auto simp add: l2_def)
      from True untagged "1.prems"
      have run: "List_RemoveTagged_loop l2 (src + 1) (dest + 1) = (l', d)"
        by (subst (asm) List_RemoveTagged_loop.simps) (simp add: l2_def)
      have low: "map (List.elem l2) [0..dest + 1 - 1] =
          map (List.elem l) [0..dest - 1] @ [List.elem l src]"
        using "1.prems"(1) upto_snoc [of 0 "dest - 1"] by (simp add: l2)
      have high: "map (List.elem l2) [src + 1..List.n l - 1] =
          map (List.elem l) [src + 1..List.n l - 1]"
        using "1.prems"(2) by (simp add: l2)
      have "\<not> tag (List.elem l src) \<noteq> 0" "0 \<le> dest + 1" "dest + 1 \<le> src + 1"
        using untagged "1.prems" by simp_all
      from "1.IH"(2) [OF True this run [unfolded l2_def], folded l2_def]
      have "List.n l' = List.n l2" "List.elemsAllocated l' = List.elemsAllocated l2"
        "map (List.elem l') [0..d - 1] =
          map (List.elem l2) [0..dest + 1 - 1] @
            filter (\<lambda>e. tag e = 0) (map (List.elem l2) [src + 1..List.n l2 - 1])"
        "d = dest + 1 +
          int (length (filter (\<lambda>e. tag e = 0) (map (List.elem l2) [src + 1..List.n l2 - 1])))"
        by blast+
      then have "List.n l' = List.n l" "List.elemsAllocated l' = List.elemsAllocated l"
        "map (List.elem l') [0..d - 1] =
          (map (List.elem l) [0..dest - 1] @ [List.elem l src]) @
            filter (\<lambda>e. tag e = 0) (map (List.elem l) [src + 1..List.n l - 1])"
        "d = dest + 1 +
          int (length (filter (\<lambda>e. tag e = 0) (map (List.elem l) [src + 1..List.n l - 1])))"
        unfolding l2(1,2) low high by simp_all
      moreover have "filter (\<lambda>e. tag e = 0) (map (List.elem l) [src..List.n l - 1]) =
          List.elem l src # filter (\<lambda>e. tag e = 0) (map (List.elem l) [src + 1..List.n l - 1])"
        using untagged unfolding split by simp
      ultimately show ?thesis by simp
    qed
  qed
qed

lemma List_RemoveTagged_eq:
  "List_contents (List_RemoveTagged l) = filter (\<lambda>e. tag e = 0) (List_contents l)"
  "List.n (List_RemoveTagged l) = int (length (filter (\<lambda>e. tag e = 0) (List_contents l)))"
  "List.elemsAllocated (List_RemoveTagged l) = List.elemsAllocated l"
proof -
  obtain l' d where run: "List_RemoveTagged_loop l 0 0 = (l', d)"
    by (cases "List_RemoveTagged_loop l 0 0")
  have "(0::int) \<le> 0" by simp
  from List_RemoveTagged_loop_eq [OF this this run]
  have "List.n l' = List.n l" "List.elemsAllocated l' = List.elemsAllocated l"
    "map (List.elem l') [0..d - 1] =
       map (List.elem l) [0..0 - 1] @
         filter (\<lambda>e. tag e = 0) (map (List.elem l) [0..List.n l - 1])"
    "d = 0 + int (length (filter (\<lambda>e. tag e = 0) (map (List.elem l) [0..List.n l - 1])))"
    by blast+
  then have *: "List.n l' = List.n l" "List.elemsAllocated l' = List.elemsAllocated l"
    "map (List.elem l') [0..d - 1] =
       filter (\<lambda>e. tag e = 0) (map (List.elem l) [0..List.n l - 1])"
    "d = int (length (filter (\<lambda>e. tag e = 0) (map (List.elem l) [0..List.n l - 1])))"
    by simp_all
  have fields: "List.elem (List_RemoveTagged l) = List.elem l'" "List.n (List_RemoveTagged l) = d"
    by (simp_all add: List_RemoveTagged_def run)
  show "List_contents (List_RemoveTagged l) = filter (\<lambda>e. tag e = 0) (List_contents l)"
    unfolding List_contents_def fields by (rule *(3))
  show "List.n (List_RemoveTagged l) = int (length (filter (\<lambda>e. tag e = 0) (List_contents l)))"
    unfolding List_contents_def fields by (rule *(4))
  show "List.elemsAllocated (List_RemoveTagged l) = List.elemsAllocated l"
    using *(2) by (simp add: List_RemoveTagged_def run)
qed

section \<open>Maximum handle\<close>

lemma MaximumId_loop_eq:
  "MaximumId_loop l i id' = fold max (map (\<lambda>e. v (h e)) (map (elem l) [i..n l - 1])) id'"
proof (induction l i id' rule: MaximumId_loop.induct)
  case (1 l i id')
  show ?case
  proof (cases "i < n l")
    case False
    then show ?thesis by (subst MaximumId_loop.simps) simp
  next
    case True
    then have "[i..n l - 1] = i # [i + 1..n l - 1]"
      by (simp add: upto_rec1)
    with True "1.IH" [OF True] show ?thesis
      by (subst MaximumId_loop.simps) (simp add: max.commute)
  qed
qed

lemma MaximumId_eq: "MaximumId l = Max (set (0 # handles l))"
proof -
  have "MaximumId l = fold max (handles l) 0"
    by (simp only: MaximumId_def MaximumId_loop_eq handles_def contents_def)
  then show ?thesis
    by (simp only: Max.set_eq_fold)
qed

lemma MaximumId_ge: "x \<in> set (handles l) \<Longrightarrow> x \<le> MaximumId l"
  by (simp add: MaximumId_eq)

section \<open>Removal by handle\<close>

lemma handles_ClearTags: "handles (ClearTags l) = handles l" "n (ClearTags l) = n l"
  by (simp_all add: ClearTags_eq handles_def contents_def)

lemma RemoveById_miss: "v hh \<notin> set (handles l) \<Longrightarrow> RemoveById l hh = Inl Oops"
  by (simp add: RemoveById_def Let_def FindById_def FindByIdNoOops_miss handles_ClearTags)

lemma RemoveById_inv:
  assumes "IdList_inv l" "RemoveById l hh = Inr l'"
  shows "IdList_inv l'"
proof -
  define l1 where "l1 = ClearTags l"
  from assms(2) obtain i where
    l': "l' = RemoveTagged (l1\<lparr>elem := (elem l1)(i := (elem l1 i)\<lparr>tag := 1\<rparr>)\<rparr>)"
    by (auto simp add: RemoveById_def Let_def l1_def split: sum.splits)
  define l2 where "l2 = l1\<lparr>elem := (elem l1)(i := (elem l1 i)\<lparr>tag := 1\<rparr>)\<rparr>"
  have "handles l2 = handles l1"
    by (simp add: l2_def handles_def contents_def)
  then have h2: "handles l2 = handles l"
    by (simp add: l1_def handles_ClearTags)
  have "handles l' = map (\<lambda>e. v (h e)) (filter (\<lambda>e. tag e = 0) (contents l2))"
    by (simp add: l' l2_def [symmetric] handles_def RemoveTagged_eq)
  moreover have "sorted_wrt (<) (map (\<lambda>e. v (h e)) (contents l2))"
    using assms(1) h2 by (simp add: IdList_inv_def handles_def)
  then have "sorted_wrt (<) (map (\<lambda>e. v (h e)) (filter (\<lambda>e. tag e = 0) (contents l2)))"
    by (simp add: sorted_wrt_map sorted_wrt_filter)
  moreover have "0 \<le> n l'"
    by (simp add: l' RemoveTagged_eq)
  ultimately show ?thesis
    by (simp add: IdList_inv_def)
qed

lemma word_less_succ: "(m :: uint32_t) \<noteq> - 1 \<Longrightarrow> m < m + 1"
  by (metis inc_less_eq_triv_imp linorder_less_linear word_le_less_eq)

lemma inv_empty: "n l = 0 \<Longrightarrow> IdList_inv l"
  by (simp add: IdList_inv_def handles_def contents_def)

lemma sorted_handles_distinct: "sorted_wrt (<) (xs :: uint32_t list) \<Longrightarrow> distinct xs"
  by (simp add: strict_sorted_iff)

section \<open>Insertion\<close>

lemma Add_returns: "IdList_inv l \<Longrightarrow> Add l t \<noteq> None"
  using Add_duplicate [of l t] Add_fresh [of l t] by (cases "v (h t) \<in> set (handles l)") auto

lemma Add_inv: "IdList_inv l \<Longrightarrow> Add l t = Some (Inr l') \<Longrightarrow> IdList_inv l'"
  using Add_duplicate [of l t] Add_fresh_inv(1) [of l t l']
  by (cases "v (h t) \<in> set (handles l)") auto

lemma AddAndAssignId_value:
  "AddAndAssignId l t = Some (Inr (l', t', hh)) \<Longrightarrow>
     v hh = Max (set (0 # handles l)) + 1 \<and> t' = t\<lparr>h := (h t)\<lparr>v := v hh\<rparr>\<rparr> \<and> hh = h t'"
  by (auto simp add: AddAndAssignId_def Let_def MaximumId_eq split: option.splits sum.splits)

lemma AddAndAssignId_appends:
  fixes l :: "'a T_scheme IdList" and t :: "'a T_scheme"
  assumes inv: "IdList_inv l" and room: "Max (set (0 # handles l)) \<noteq> - 1"
  defines "t' \<equiv> t\<lparr>h := (h t)\<lparr>v := Max (set (0 # handles l)) + 1\<rparr>\<rparr>"
  shows "\<exists>l'. AddAndAssignId l t = Some (Inr (l', t', h t')) \<and>
           contents l' = contents l @ [t'] \<and> (\<forall>x \<in> set (handles l). x < v (h t'))"
proof -
  have vt': "v (h t') = MaximumId l + 1"
    by (simp add: t'_def MaximumId_eq)
  have "MaximumId l \<noteq> - 1"
    unfolding MaximumId_eq by (rule room)
  then have succ: "MaximumId l < MaximumId l + 1"
    by (rule word_less_succ)
  have below: "x < v (h t')" if "x \<in> set (handles l)" for x
    using MaximumId_ge [OF that] succ unfolding vt' by (rule le_less_trans)
  then have fresh: "v (h t') \<notin> set (handles l)"
    by blast
  from Add_fresh [OF inv fresh] obtain i where
    i: "0 \<le> i" "i \<le> n l" "\<forall>j. i \<le> j \<and> j < n l \<longrightarrow> v (h t') < v (h (elem l j))"
    and add: "Add l t' = Some (Inr ((grown l)\<lparr>elem := (memmove (elem l) (i + 1) i (n l - i))(i := t'),
                                          n := n l + 1\<rparr>))"
    by blast
  have "i = n l"
  proof (rule ccontr)
    assume "i \<noteq> n l"
    with i have "i < n l" by simp
    with i have "v (h t') < v (h (elem l i))" "v (h (elem l i)) \<in> set (handles l)"
      unfolding set_handles by auto
    with below [of "v (h (elem l i))"] show False by simp
  qed
  define l' where "l' = (grown l)\<lparr>elem := (memmove (elem l) (i + 1) i (n l - i))(i := t'), n := n l + 1\<rparr>"
  have "elem l' = (elem l)(n l := t')" "n l' = n l + 1"
    using \<open>i = n l\<close> by (auto simp add: l'_def memmove_def fun_eq_iff)
  moreover have "0 \<le> n l"
    using inv by (simp add: IdList_inv_def)
  ultimately have "contents l' = contents l @ [t']"
    using upto_snoc [of 0 "n l - 1"] by (simp add: contents_def)
  moreover have "AddAndAssignId l t = Some (Inr (l', t', h t'))"
    using add by (simp add: AddAndAssignId_def Let_def t'_def MaximumId_eq l'_def)
  ultimately show ?thesis
    using below by blast
qed

section \<open>Sequences of calls\<close>

lemma step_inv:
  assumes "IdList_inv l"
  shows "step l c \<noteq> None" "step l c = Some (Inr (l', hs)) \<Longrightarrow> IdList_inv l'"
proof -
  show "step l c \<noteq> None"
  proof (cases c)
    case (CallAdd t)
    with Add_returns [OF assms, of t] show ?thesis
      by (auto split: option.splits sum.splits)
  next
    case (CallAddAndAssignId t)
    with Add_returns [OF assms, of "t\<lparr>h := (h t)\<lparr>v := MaximumId l + 1\<rparr>\<rparr>"] show ?thesis
      by (auto simp add: AddAndAssignId_def Let_def split: option.splits sum.splits)
  next
    case (CallRemoveById hh)
    then show ?thesis by (auto split: sum.splits)
  qed
  show "IdList_inv l'" if "step l c = Some (Inr (l', hs))"
  proof (cases c)
    case (CallAdd t)
    with that have "Add l t = Some (Inr l')"
      by (auto split: option.splits sum.splits)
    with assms show ?thesis by (rule Add_inv)
  next
    case (CallAddAndAssignId t)
    with that have "Add l (t\<lparr>h := (h t)\<lparr>v := MaximumId l + 1\<rparr>\<rparr>) = Some (Inr l')"
      by (auto simp add: AddAndAssignId_def Let_def split: option.splits sum.splits)
    with assms show ?thesis by (rule Add_inv)
  next
    case (CallRemoveById hh)
    with that have "RemoveById l hh = Inr l'"
      by (auto split: sum.splits)
    with assms show ?thesis by (rule RemoveById_inv)
  qed
qed

lemma run_inv:
  "IdList_inv l \<Longrightarrow> run l cs \<noteq> None \<and> (\<forall>l' hs. run l cs = Some (Inr (l', hs)) \<longrightarrow> IdList_inv l')"
proof (induction cs arbitrary: l)
  case Nil
  then show ?case by simp
next
  case (Cons c cs)
  from step_inv(1) [OF Cons.prems, of c] consider e where "step l c = Some (Inl e)"
    | l1 hs1 where "step l c = Some (Inr (l1, hs1))"
    by (cases "step l c") (auto, metis sum.exhaust surj_pair)
  then show ?case
  proof cases
    case 1
    then show ?thesis by simp
  next
    case 2
    from step_inv(2) [OF Cons.prems 2] have "IdList_inv l1" .
    from Cons.IH [OF this] 2 show ?thesis
      by (auto split: option.splits sum.splits)
  qed
qed

section \<open>Handles assigned by the container\<close>

text \<open>
  C3, as stated, fails: it says that \<^verbatim>\<open>AddAndAssignId\<close> never assigns a handle that
  was assigned before in the same container. On an empty container, assigning a handle
  (1), removing that element and assigning again gives 1 a second time, since the
  maximum is taken over the elements present.
\<close>

theorem AddAndAssignId_reuses_handle:
  "\<not> assigns_fresh_handles (IdList_of [])
       [CallAddAndAssignId (item 0 0), CallRemoveById \<lparr>v = 1\<rparr>, CallAddAndAssignId (item 0 0)]"
  by code_simp

text \<open>
  C3, amended. \<^verbatim>\<open>AddAndAssignId\<close> gives the element the handle value
  (maximum handle value over the elements present, 0 for none) + 1, computed modulo
  \<open>2^32\<close>, and returns that handle. On a container that satisfies the invariant and
  whose maximum is below \<open>2^32 - 1\<close> the call succeeds, the new handle is greater
  than every handle present, and the element becomes the last one.
\<close>

theorem AddAndAssignId_next_handle:
  fixes l :: "'a T_scheme IdList" and t :: "'a T_scheme"
  shows "(\<forall>l' t' hh. AddAndAssignId l t = Some (Inr (l', t', hh)) \<longrightarrow>
            v hh = Max (set (0 # handles l)) + 1 \<and> t' = t\<lparr>h := (h t)\<lparr>v := v hh\<rparr>\<rparr> \<and> hh = h t') \<and>
         (IdList_inv l \<and> Max (set (0 # handles l)) \<noteq> - 1 \<longrightarrow>
            (\<exists>l' t'. AddAndAssignId l t = Some (Inr (l', t', h t')) \<and>
               v (h t') = Max (set (0 # handles l)) + 1 \<and>
               (\<forall>x \<in> set (handles l). x < v (h t')) \<and>
               contents l' = contents l @ [t']))"
proof (intro conjI allI impI)
  fix l' t' hh
  assume "AddAndAssignId l t = Some (Inr (l', t', hh))"
  from AddAndAssignId_value [OF this]
  show "v hh = Max (set (0 # handles l)) + 1" "t' = t\<lparr>h := (h t)\<lparr>v := v hh\<rparr>\<rparr>" "hh = h t'"
    by blast+
next
  assume "IdList_inv l \<and> Max (set (0 # handles l)) \<noteq> - 1"
  then have a: "IdList_inv l" and b: "Max (set (0 # handles l)) \<noteq> - 1"
    by blast+
  define t' where "t' = t\<lparr>h := (h t)\<lparr>v := Max (set (0 # handles l)) + 1\<rparr>\<rparr>"
  from AddAndAssignId_appends [OF a b, of t, folded t'_def] obtain l' where
    "AddAndAssignId l t = Some (Inr (l', t', h t'))" "contents l' = contents l @ [t']"
    "\<forall>x \<in> set (handles l). x < v (h t')"
    by blast
  moreover have "v (h t') = Max (set (0 # handles l)) + 1"
    by (simp add: t'_def)
  ultimately show "\<exists>l' t'. AddAndAssignId l t = Some (Inr (l', t', h t')) \<and>
               v (h t') = Max (set (0 # handles l)) + 1 \<and>
               (\<forall>x \<in> set (handles l). x < v (h t')) \<and>
               contents l' = contents l @ [t']"
    by blast
qed

text \<open>The amended C3 on a container holding the handles 3 and 7: the handle assigned is 8.\<close>

theorem AddAndAssignId_next_handle_witness:
  "IdList_inv (IdList_of [item 3 0, item 7 0]) \<and>
   Max (set (0 # handles (IdList_of [item 3 0, item 7 0]))) \<noteq> - 1 \<and>
   (\<exists>l' t'. AddAndAssignId (IdList_of [item 3 0, item 7 0]) (item 0 0) = Some (Inr (l', t', h t')) \<and>
      v (h t') = 8 \<and> contents l' = [item 3 0, item 7 0, t'])"
proof -
  have a: "IdList_inv (IdList_of [item 3 0, item 7 0])"
    by code_simp
  have b: "Max (set (0 # handles (IdList_of [item 3 0, item 7 0]))) \<noteq> - 1"
    by code_simp
  have c: "Max (set (0 # handles (IdList_of [item 3 0, item 7 0]))) + 1 = 8"
    by code_simp
  have d: "contents (IdList_of [item 3 0, item 7 0]) = [item 3 0, item 7 0]"
    by code_simp
  from AddAndAssignId_next_handle [of "IdList_of [item 3 0, item 7 0]" "item 0 0"] a b
  show ?thesis unfolding c d by auto
qed

section \<open>The invariant along a sequence of calls\<close>

text \<open>
  C4. Start from an empty identifier list and apply any sequence of \<^verbatim>\<open>Add\<close>,
  \<^verbatim>\<open>AddAndAssignId\<close> and \<^verbatim>\<open>RemoveById\<close> calls. Every call returns or aborts, and
  after every call that returned (after each prefix \<open>take k cs\<close> of the sequence) the
  handle values of the elements ascend strictly, so no two elements share a handle.
\<close>

theorem run_keeps_sorted:
  assumes "n l0 = 0"
  shows "run l0 (take k cs) \<noteq> None \<and>
         (\<forall>l hs. run l0 (take k cs) = Some (Inr (l, hs)) \<longrightarrow>
            sorted_wrt (<) (handles l) \<and> distinct (handles l))"
proof -
  from assms have "IdList_inv l0" by (rule inv_empty)
  from run_inv [OF this, of "take k cs"] show ?thesis
    by (auto simp add: IdList_inv_def sorted_handles_distinct)
qed

text \<open>
  C4 on the calls \<^verbatim>\<open>Add\<close> of handle 5, \<^verbatim>\<open>Add\<close> of handle 3, \<^verbatim>\<open>AddAndAssignId\<close> and
  \<^verbatim>\<open>RemoveById\<close> of handle 5: the list ends with the handles 3 and 6.
\<close>

theorem run_keeps_sorted_witness:
  "n (IdList_of []) = 0 \<and>
   (\<exists>l hs. run (IdList_of [])
        (take 4 [CallAdd (item 5 0), CallAdd (item 3 0), CallAddAndAssignId (item 0 0),
                 CallRemoveById \<lparr>v = 5\<rparr>]) = Some (Inr (l, hs)) \<and>
      handles l = [3, 6] \<and> sorted_wrt (<) (handles l) \<and> distinct (handles l))"
proof -
  have a: "n (IdList_of []) = 0"
    by code_simp
  have "case run (IdList_of [])
        (take 4 [CallAdd (item 5 0), CallAdd (item 3 0), CallAddAndAssignId (item 0 0),
                 CallRemoveById \<lparr>v = 5\<rparr>]) of
          Some (Inr (l, hs)) \<Rightarrow> handles l = [3, 6] | _ \<Rightarrow> False"
    by code_simp
  then obtain l hs where
    "run (IdList_of [])
        (take 4 [CallAdd (item 5 0), CallAdd (item 3 0), CallAddAndAssignId (item 0 0),
                 CallRemoveById \<lparr>v = 5\<rparr>]) = Some (Inr (l, hs))" "handles l = [3, 6]"
    by (auto split: option.splits sum.splits)
  with a run_keeps_sorted [OF a, of 4 "[CallAdd (item 5 0), CallAdd (item 3 0),
      CallAddAndAssignId (item 0 0), CallRemoveById \<lparr>v = 5\<rparr>]"]
  show ?thesis by blast
qed

section \<open>Inserting\<close>

text \<open>
  The invariant is what makes the search of \<^verbatim>\<open>Add\<close> complete. On a buffer that is not
  sorted, which no sequence of calls produces, the search can pass by an equal handle:
  with the handles 5, 3 in the cells, adding handle 5 probes only the cell of 3.
\<close>

lemma Add_on_unsorted_buffer:
  "case Add (IdList_of [item 5 0, item 3 0]) (item 5 1) of
     Some (Inr l') \<Rightarrow> handles l' = [5, 3, 5] | _ \<Rightarrow> False"
  by code_simp

text \<open>
  C5. On an identifier list that holds an element with the handle of \<open>t\<close>, \<^verbatim>\<open>Add\<close>
  reaches \<^verbatim>\<open>oops()\<close>: the call aborts, it returns neither an error value to the caller
  nor a changed list. An identifier list is one that satisfies its invariant; in
  particular every list that a sequence of calls has built from an empty one.
\<close>

theorem Add_duplicate_aborts:
  "(IdList_inv l \<and> v (h t) \<in> set (handles l) \<longrightarrow> Add l t = Some (Inl Oops)) \<and>
   (n l0 = 0 \<and> run l0 cs = Some (Inr (l, hs)) \<and> v (h t) \<in> set (handles l) \<longrightarrow>
      Add l t = Some (Inl Oops))"
proof (intro conjI impI)
  assume "IdList_inv l \<and> v (h t) \<in> set (handles l)"
  then show "Add l t = Some (Inl Oops)"
    by (intro Add_duplicate) simp_all
next
  assume a: "n l0 = 0 \<and> run l0 cs = Some (Inr (l, hs)) \<and> v (h t) \<in> set (handles l)"
  then have "IdList_inv l0"
    by (intro inv_empty) simp
  from run_inv [OF this, of cs] a have "IdList_inv l"
    by blast
  with a show "Add l t = Some (Inl Oops)"
    by (intro Add_duplicate) simp_all
qed

text \<open>
  C5 on the list with handles 3 and 7 and a second element of handle 7, and on the list
  built by adding the handles 5 and 3 and a second element of handle 3.
\<close>

theorem Add_duplicate_aborts_witness:
  "IdList_inv (IdList_of [item 3 0, item 7 0]) \<and>
   v (h (item 7 1)) \<in> set (handles (IdList_of [item 3 0, item 7 0])) \<and>
   Add (IdList_of [item 3 0, item 7 0]) (item 7 1) = Some (Inl Oops) \<and>
   n (IdList_of []) = 0 \<and>
   (\<exists>l hs. run (IdList_of []) [CallAdd (item 5 0), CallAdd (item 3 0)] = Some (Inr (l, hs)) \<and>
      v (h (item 3 1)) \<in> set (handles l) \<and> Add l (item 3 1) = Some (Inl Oops))"
proof -
  have a: "IdList_inv (IdList_of [item 3 0, item 7 0])"
    by code_simp
  have b: "v (h (item 7 1)) \<in> set (handles (IdList_of [item 3 0, item 7 0]))"
    by code_simp
  have c: "n (IdList_of []) = 0"
    by code_simp
  have "case run (IdList_of []) [CallAdd (item 5 0), CallAdd (item 3 0)] of
          Some (Inr (l, hs)) \<Rightarrow> v (h (item 3 1)) \<in> set (handles l) | _ \<Rightarrow> False"
    by code_simp
  then obtain l hs where d:
    "run (IdList_of []) [CallAdd (item 5 0), CallAdd (item 3 0)] = Some (Inr (l, hs))"
    "v (h (item 3 1)) \<in> set (handles l)"
    by (auto split: option.splits sum.splits)
  from a b have "Add (IdList_of [item 3 0, item 7 0]) (item 7 1) = Some (Inl Oops)"
    using Add_duplicate_aborts [of "IdList_of [item 3 0, item 7 0]" "item 7 1"] by blast
  moreover from c d have "Add l (item 3 1) = Some (Inl Oops)"
    using Add_duplicate_aborts [of l "item 3 1" "IdList_of []"
        "[CallAdd (item 5 0), CallAdd (item 3 0)]" hs] by blast
  ultimately show ?thesis
    using a b c d by blast
qed

text \<open>
  C6. On an identifier list that satisfies its invariant and holds no element with the
  handle of \<open>t\<close>, \<^verbatim>\<open>Add\<close> returns, and in the list it returns both lookups of that
  handle find a cell, the same one, and the cell holds \<open>t\<close>.
\<close>

theorem Add_then_FindById:
  assumes "IdList_inv l" and "v (h t) \<notin> set (handles l)"
  shows "\<exists>l' i. Add l t = Some (Inr l') \<and> FindById l' (h t) = Inr i \<and>
           FindByIdNoOops l' (h t) = Some i \<and> elem l' i = t"
proof -
  from Add_fresh [OF assms] obtain i l' where
    i: "0 \<le> i" "i \<le> n l"
    and l': "l' = (grown l)\<lparr>elem := (memmove (elem l) (i + 1) i (n l - i))(i := t), n := n l + 1\<rparr>"
    and add: "Add l t = Some (Inr l')"
    by blast
  from assms add have "IdList_inv l'"
    by (rule Add_fresh_inv(1))
  moreover have "elem l' i = t" "i < n l'"
    using i by (simp_all add: l')
  ultimately have "FindByIdNoOops l' (h t) = Some i"
    using i(1) by (intro FindByIdNoOops_hit) simp_all
  with add \<open>elem l' i = t\<close> show ?thesis
    by (simp add: FindById_def)
qed

theorem Add_then_FindById_witness:
  "IdList_inv (IdList_of [item 3 0, item 7 0]) \<and>
   v (h (item 5 9)) \<notin> set (handles (IdList_of [item 3 0, item 7 0])) \<and>
   (\<exists>l' i. Add (IdList_of [item 3 0, item 7 0]) (item 5 9) = Some (Inr l') \<and>
      FindById l' (h (item 5 9)) = Inr i \<and> FindByIdNoOops l' (h (item 5 9)) = Some i \<and>
      elem l' i = item 5 9)"
proof -
  have a: "IdList_inv (IdList_of [item 3 0, item 7 0])"
    by code_simp
  have b: "v (h (item 5 9)) \<notin> set (handles (IdList_of [item 3 0, item 7 0]))"
    by code_simp
  from a b Add_then_FindById [OF a b] show ?thesis by blast
qed

section \<open>Removing\<close>

text \<open>
  C7. \<^verbatim>\<open>RemoveTagged\<close>, of \<^verbatim>\<open>List\<close> and of \<^verbatim>\<open>IdList\<close> alike, keeps exactly the
  elements whose tag is zero, in the order they had; the new count is the number of
  those elements; \<^verbatim>\<open>elemsAllocated\<close> is as before.
\<close>

theorem RemoveTagged_sweeps:
  "List_contents (List_RemoveTagged l) = filter (\<lambda>e. tag e = 0) (List_contents l) \<and>
   List.n (List_RemoveTagged l) = int (length (filter (\<lambda>e. tag e = 0) (List_contents l))) \<and>
   List.elemsAllocated (List_RemoveTagged l) = List.elemsAllocated l \<and>
   contents (RemoveTagged m) = filter (\<lambda>e. tag e = 0) (contents m) \<and>
   n (RemoveTagged m) = int (length (filter (\<lambda>e. tag e = 0) (contents m))) \<and>
   elemsAllocated (RemoveTagged m) = elemsAllocated m"
  by (simp only: List_RemoveTagged_eq RemoveTagged_eq)

text \<open>
  C7 on four elements of which the second and the fourth are tagged: the first and the
  third remain, in a buffer of four cells.
\<close>

theorem RemoveTagged_sweeps_witness:
  "List_contents (List_RemoveTagged (List_of [item 4 0, item 2 1, item 9 0, item 1 5])) =
     [item 4 0, item 9 0] \<and>
   List.n (List_RemoveTagged (List_of [item 4 0, item 2 1, item 9 0, item 1 5])) = 2 \<and>
   List.elemsAllocated (List_RemoveTagged (List_of [item 4 0, item 2 1, item 9 0, item 1 5])) = 4 \<and>
   contents (RemoveTagged (IdList_of [item 1 0, item 2 1, item 4 0, item 9 5])) =
     [item 1 0, item 4 0] \<and>
   n (RemoveTagged (IdList_of [item 1 0, item 2 1, item 4 0, item 9 5])) = 2 \<and>
   elemsAllocated (RemoveTagged (IdList_of [item 1 0, item 2 1, item 4 0, item 9 5])) = 4"
proof -
  have a: "filter (\<lambda>e. tag e = 0) (List_contents (List_of [item 4 0, item 2 1, item 9 0, item 1 5])) =
      [item 4 0, item 9 0]"
    by code_simp
  have b: "filter (\<lambda>e. tag e = 0) (contents (IdList_of [item 1 0, item 2 1, item 4 0, item 9 5])) =
      [item 1 0, item 4 0]"
    by code_simp
  have c: "List.elemsAllocated (List_of [item 4 0, item 2 1, item 9 0, item 1 5]) = 4"
    "elemsAllocated (IdList_of [item 1 0, item 2 1, item 4 0, item 9 5]) = 4"
    by code_simp+
  from RemoveTagged_sweeps [of "List_of [item 4 0, item 2 1, item 9 0, item 1 5]"
      "IdList_of [item 1 0, item 2 1, item 4 0, item 9 5]"]
  show ?thesis unfolding a b c by simp
qed

lemma c_int_in_range: "- 2147483648 \<le> x \<Longrightarrow> x \<le> 2147483647 \<Longrightarrow> c_int x = x"
  by (simp add: c_int_def)

text \<open>
  C8, as stated, fails: it gives \<open>n - cnt\<close> as the new count for every \<open>cnt\<close> not above
  \<open>n\<close>. For a negative \<open>cnt\<close> the difference can exceed the largest \<^verbatim>\<open>int\<close>: on a list
  of three elements, \<^verbatim>\<open>RemoveLast(-2147483647)\<close> passes the check and leaves the count
  \<open>-2147483646\<close>, where \<open>n - cnt\<close> is \<open>2147483650\<close>.
\<close>

theorem RemoveLast_overflows:
  "(- 2147483647 :: int) \<le> List.n (List_of [item 4 0, item 2 1, item 9 0]) \<and>
   List_RemoveLast (List_of [item 4 0, item 2 1, item 9 0]) (- 2147483647) =
     Inr ((List_of [item 4 0, item 2 1, item 9 0])\<lparr>List.n := - 2147483646\<rparr>) \<and>
   List.n (List_of [item 4 0, item 2 1, item 9 0]) - (- 2147483647) = 2147483650"
  by (simp add: List_RemoveLast_def List_of_def c_int_def)

text \<open>
  C8, amended. \<^verbatim>\<open>RemoveLast(cnt)\<close> aborts exactly when \<open>cnt\<close> exceeds the count \<open>n\<close>,
  for every \<open>cnt\<close>. When \<open>cnt\<close> does not exceed \<open>n\<close> and \<open>n - cnt\<close> is at most
  \<open>2^31 - 1\<close>, as it is for every \<open>cnt\<close> that is not negative, the call returns, the
  count becomes \<open>n - cnt\<close>, no cell of the buffer changes (so the first \<open>n - cnt\<close>
  elements are the ones that were there), and \<^verbatim>\<open>elemsAllocated\<close> is as before.
\<close>

theorem RemoveLast_spec:
  "(List_RemoveLast l cnt = Inl Oops \<longleftrightarrow> List.n l < cnt) \<and>
   (cnt \<le> List.n l \<and> List.n l - cnt \<le> 2147483647 \<longrightarrow>
      (\<exists>l'. List_RemoveLast l cnt = Inr l' \<and> List.n l' = List.n l - cnt \<and>
         List.elem l' = List.elem l \<and>
         map (List.elem l') [0..List.n l - cnt - 1] = map (List.elem l) [0..List.n l - cnt - 1] \<and>
         (0 \<le> cnt \<longrightarrow> List_contents l' = take (nat (List.n l - cnt)) (List_contents l)) \<and>
         List.elemsAllocated l' = List.elemsAllocated l))"
proof (intro conjI impI)
  show "List_RemoveLast l cnt = Inl Oops \<longleftrightarrow> List.n l < cnt"
    by (simp add: List_RemoveLast_def)
next
  assume a: "cnt \<le> List.n l \<and> List.n l - cnt \<le> 2147483647"
  then have wrap: "c_int (List.n l - cnt) = List.n l - cnt"
    by (intro c_int_in_range) simp_all
  have prefix: "map (List.elem l) [0..List.n l - cnt - 1] =
      take (nat (List.n l - cnt)) (map (List.elem l) [0..List.n l - 1])" if "0 \<le> cnt"
  proof (rule nth_equalityI)
    show "length (map (List.elem l) [0..List.n l - cnt - 1]) =
        length (take (nat (List.n l - cnt)) (map (List.elem l) [0..List.n l - 1]))"
      using that by simp
  next
    fix i assume "i < length (map (List.elem l) [0..List.n l - cnt - 1])"
    then show "map (List.elem l) [0..List.n l - cnt - 1] ! i =
        take (nat (List.n l - cnt)) (map (List.elem l) [0..List.n l - 1]) ! i"
      using that by simp
  qed
  define l' where "l' = l\<lparr>List.n := List.n l - cnt\<rparr>"
  have "List_RemoveLast l cnt = Inr l'"
    using a by (simp add: List_RemoveLast_def wrap l'_def)
  moreover have "List.n l' = List.n l - cnt" "List.elem l' = List.elem l"
    "List.elemsAllocated l' = List.elemsAllocated l"
    by (simp_all add: l'_def)
  moreover have "0 \<le> cnt \<longrightarrow> List_contents l' = take (nat (List.n l - cnt)) (List_contents l)"
    using prefix by (simp add: List_contents_def l'_def)
  ultimately show "\<exists>l'. List_RemoveLast l cnt = Inr l' \<and> List.n l' = List.n l - cnt \<and>
         List.elem l' = List.elem l \<and>
         map (List.elem l') [0..List.n l - cnt - 1] = map (List.elem l) [0..List.n l - cnt - 1] \<and>
         (0 \<le> cnt \<longrightarrow> List_contents l' = take (nat (List.n l - cnt)) (List_contents l)) \<and>
         List.elemsAllocated l' = List.elemsAllocated l"
    by (intro exI [of _ l']) simp
qed

text \<open>
  The amended C8 on a list of three elements: removing four aborts, removing two leaves
  the first element in a buffer of three cells.
\<close>

theorem RemoveLast_spec_witness:
  "List_RemoveLast (List_of [item 4 0, item 2 1, item 9 0]) 4 = Inl Oops \<and>
   (2::int) \<le> List.n (List_of [item 4 0, item 2 1, item 9 0]) \<and>
   List.n (List_of [item 4 0, item 2 1, item 9 0]) - 2 \<le> 2147483647 \<and>
   (\<exists>l'. List_RemoveLast (List_of [item 4 0, item 2 1, item 9 0]) 2 = Inr l' \<and>
      List.n l' = 1 \<and> List_contents l' = [item 4 0] \<and> List.elemsAllocated l' = 3)"
proof -
  have a: "List.n (List_of [item 4 0, item 2 1, item 9 0]) = 3"
    "List.elemsAllocated (List_of [item 4 0, item 2 1, item 9 0]) = 3"
    "take (nat (3 - 2)) (List_contents (List_of [item 4 0, item 2 1, item 9 0])) = [item 4 0]"
    by code_simp+
  from RemoveLast_spec [of "List_of [item 4 0, item 2 1, item 9 0]" 4]
    RemoveLast_spec [of "List_of [item 4 0, item 2 1, item 9 0]" 2]
  show ?thesis unfolding a by auto
qed

section \<open>Tagging by handle\<close>

text \<open>
  C10. \<^verbatim>\<open>Tag\<close> has no path to \<^verbatim>\<open>oops()\<close>: it always returns a list. It writes the
  given tag into every live element whose handle is the one given and changes nothing
  else. When no element has that handle the list is returned as it was, whereas
  \<^verbatim>\<open>RemoveById\<close> aborts. On a list that satisfies the invariant the element with the
  handle, at offset \<open>k\<close>, is the only one that changes.
\<close>

theorem Tag_spec:
  "Tag l hh tag' =
     l\<lparr>elem := (\<lambda>j. if 0 \<le> j \<and> j < n l \<and> v (h (elem l j)) = v hh
                     then (elem l j)\<lparr>tag := tag'\<rparr> else elem l j)\<rparr> \<and>
   (v hh \<notin> set (handles l) \<longrightarrow> Tag l hh tag' = l \<and> RemoveById l hh = Inl Oops) \<and>
   (IdList_inv l \<and> 0 \<le> k \<and> k < n l \<and> v (h (elem l k)) = v hh \<longrightarrow>
      Tag l hh tag' = l\<lparr>elem := (elem l)(k := (elem l k)\<lparr>tag := tag'\<rparr>)\<rparr>)"
proof (intro conjI impI)
  show "Tag l hh tag' =
     l\<lparr>elem := (\<lambda>j. if 0 \<le> j \<and> j < n l \<and> v (h (elem l j)) = v hh
                     then (elem l j)\<lparr>tag := tag'\<rparr> else elem l j)\<rparr>"
    by (rule Tag_eq)
next
  assume miss: "v hh \<notin> set (handles l)"
  then have "(if 0 \<le> j \<and> j < n l \<and> v (h (elem l j)) = v hh
                     then (elem l j)\<lparr>tag := tag'\<rparr> else elem l j) = elem l j" for j
    unfolding set_handles by auto
  then have "(\<lambda>j. if 0 \<le> j \<and> j < n l \<and> v (h (elem l j)) = v hh
                     then (elem l j)\<lparr>tag := tag'\<rparr> else elem l j) = elem l"
    by (intro ext)
  then show "Tag l hh tag' = l"
    by (simp add: Tag_eq)
  from miss show "RemoveById l hh = Inl Oops"
    by (rule RemoveById_miss)
next
  assume k: "IdList_inv l \<and> 0 \<le> k \<and> k < n l \<and> v (h (elem l k)) = v hh"
  then have srt: "\<And>a b. 0 \<le> a \<Longrightarrow> a < b \<Longrightarrow> b < n l \<Longrightarrow> v (h (elem l a)) < v (h (elem l b))"
    by (simp add: IdList_inv_iff)
  have "(if 0 \<le> j \<and> j < n l \<and> v (h (elem l j)) = v hh
                     then (elem l j)\<lparr>tag := tag'\<rparr> else elem l j) =
        ((elem l)(k := (elem l k)\<lparr>tag := tag'\<rparr>)) j" for j
  proof (cases "j = k")
    case True
    with k show ?thesis by simp
  next
    case False
    have "v (h (elem l j)) \<noteq> v hh" if "0 \<le> j" "j < n l"
      using srt [of j k] srt [of k j] k that False by (cases "j < k") auto
    with False show ?thesis by auto
  qed
  then have "(\<lambda>j. if 0 \<le> j \<and> j < n l \<and> v (h (elem l j)) = v hh
                     then (elem l j)\<lparr>tag := tag'\<rparr> else elem l j) =
        (elem l)(k := (elem l k)\<lparr>tag := tag'\<rparr>)"
    by (intro ext)
  then show "Tag l hh tag' = l\<lparr>elem := (elem l)(k := (elem l k)\<lparr>tag := tag'\<rparr>)\<rparr>"
    by (simp add: Tag_eq)
qed

theorem Tag_spec_witness:
  "v \<lparr>v = 5\<rparr> \<notin> set (handles (IdList_of [item 3 0, item 7 0])) \<and>
   Tag (IdList_of [item 3 0, item 7 0]) \<lparr>v = 5\<rparr> 4 = IdList_of [item 3 0, item 7 0] \<and>
   RemoveById (IdList_of [item 3 0, item 7 0]) \<lparr>v = 5\<rparr> = Inl Oops \<and>
   IdList_inv (IdList_of [item 3 0, item 7 0]) \<and>
   v (h (elem (IdList_of [item 3 0, item 7 0]) 1)) = v \<lparr>v = 7\<rparr> \<and>
   contents (Tag (IdList_of [item 3 0, item 7 0]) \<lparr>v = 7\<rparr> 4) = [item 3 0, item 7 4]"
proof -
  have a: "v \<lparr>v = 5\<rparr> \<notin> set (handles (IdList_of [item 3 0, item 7 0]))"
    by code_simp
  have b: "IdList_inv (IdList_of [item 3 0, item 7 0]) \<and> (0::int) \<le> 1 \<and>
      1 < n (IdList_of [item 3 0, item 7 0]) \<and>
      v (h (elem (IdList_of [item 3 0, item 7 0]) 1)) = v \<lparr>v = 7\<rparr>"
    by code_simp
  have c: "contents ((IdList_of [item 3 0, item 7 0])\<lparr>elem :=
      (elem (IdList_of [item 3 0, item 7 0]))(1 := (elem (IdList_of [item 3 0, item 7 0]) 1)\<lparr>tag := 4\<rparr>)\<rparr>) =
      [item 3 0, item 7 4]"
    by code_simp
  from Tag_spec [of "IdList_of [item 3 0, item 7 0]" "\<lparr>v = 5\<rparr>" 4 1] a
  have "Tag (IdList_of [item 3 0, item 7 0]) \<lparr>v = 5\<rparr> 4 = IdList_of [item 3 0, item 7 0]"
    "RemoveById (IdList_of [item 3 0, item 7 0]) \<lparr>v = 5\<rparr> = Inl Oops"
    by blast+
  moreover from Tag_spec [of "IdList_of [item 3 0, item 7 0]" "\<lparr>v = 7\<rparr>" 4 1] b
  have "Tag (IdList_of [item 3 0, item 7 0]) \<lparr>v = 7\<rparr> 4 =
      (IdList_of [item 3 0, item 7 0])\<lparr>elem :=
      (elem (IdList_of [item 3 0, item 7 0]))(1 := (elem (IdList_of [item 3 0, item 7 0]) 1)\<lparr>tag := 4\<rparr>)\<rparr>"
    by blast
  ultimately show ?thesis
    using a b c by simp
qed

end
